theory Spec2Isabelle
  imports Main "HOL-Library.Word" "HOL-Library.Signed_Division"
begin

unbundle bit_operations_syntax

section \<open>The loudness analyzer of package pcm\<close>

text \<open>
  The embedding follows the final iteration of \<^verbatim>\<open>Analyzer.Write\<close> in
  \<^verbatim>\<open>analyzer.go\<close> (the one with \<^verbatim>\<open>ObservePeak\<close>, \<^verbatim>\<open>nwindow\<close> and
  \<^verbatim>\<open>nobserve\<close>).  Go's \<^verbatim>\<open>int64\<close>, \<^verbatim>\<open>int\<close>, \<^verbatim>\<open>uint\<close> and
  \<^verbatim>\<open>time.Duration\<close> are 64-bit words: \<open>+\<close>, \<open>-\<close> and \<open>*\<close> wrap around, the
  signed comparisons are \<open><s\<close> and \<open>\<le>s\<close>, and the quotient \<^verbatim>\<open>/\<close> truncates towards zero.
  A \<^verbatim>\<open>time.Duration\<close> counts nanoseconds, so \<^verbatim>\<open>time.Second\<close> is \<open>1000000000\<close>.
\<close>

type_synonym byte = "8 word"
type_synonym int64 = "64 word"

text \<open>Go's \<^verbatim>\<open>x / y\<close> on \<^verbatim>\<open>int64\<close> for \<open>y \<noteq> 0\<close>: truncated, and wrapping at
  \<^verbatim>\<open>MinInt64 / -1\<close>.  The callers test \<open>y = 0\<close> (a run-time panic) first.\<close>

definition quo :: "int64 \<Rightarrow> int64 \<Rightarrow> int64" where
  "quo x y = word_of_int (sint x sdiv sint y)"

definition second :: int64 where
  "second = 1000000000"

text \<open>\<^verbatim>\<open>ErrBadParameters\<close> is the error value \<^verbatim>\<open>Write\<close> returns.  The others are
  run-time panics: an index out of range in \<^verbatim>\<open>p[0]\<close> or in
  \<^verbatim>\<open>a.squares[a.next]\<close>, an integer division by zero, a negative capacity in
  \<^verbatim>\<open>make\<close>.\<close>

datatype error =
  ErrBadParameters | PanicIndexBytes | PanicIndexSquares | PanicDivide | PanicMakeSlice

text \<open>
  The observers are callbacks; their effect is a log of the calls made.  The argument of
  a call is a \<^verbatim>\<open>float64\<close> computed from integers and the constant
  \<^verbatim>\<open>wordMax\<close>: \<^verbatim>\<open>10 * math.Log10(math.Sqrt(float64(a.sum/n)) / a.wordMax)\<close> for
  the RMS observer, and \<^verbatim>\<open>10 * math.Log10(float64(a.peak) / a.wordMax)\<close> for the
  peak observer.  The log records those integers: \<open>RMS s n\<close> is a call whose argument
  is computed from the quotient \<^verbatim>\<open>s / n\<close> of the running sum \<open>s\<close> by \<open>n\<close>, and
  \<open>Peak p\<close> one whose argument is computed from the peak \<open>p\<close>.
\<close>

datatype observation = RMS int64 int64 | Peak int64

text \<open>
  The fields of \<^verbatim>\<open>Analyzer\<close>.  \<open>ObserveRMS\<close> and \<open>ObservePeak\<close> say whether the
  function field is non-nil.  \<open>squares\<close> is \<open>None\<close> for the nil slice, and
  \<open>cap_squares\<close> is \<^verbatim>\<open>cap(a.squares)\<close>.  \<open>wordMax\<close> holds the \<^verbatim>\<open>uint64\<close> that
  the code converts to \<^verbatim>\<open>float64\<close> (a power of two, so the conversion is exact).
  \<open>next_a\<close> is the \<^verbatim>\<open>int\<close> field \<^verbatim>\<open>next\<close>; it stays between \<open>-1\<close> and
  \<^verbatim>\<open>cap(a.squares)\<close>, so it is an \<open>int\<close> here.  \<open>observed\<close> is the log of observer
  calls.
\<close>

record Analyzer =
  SampleRate :: int64
  WordSize :: "64 word"
  Channels :: int64
  LittleEndian :: bool
  Signed :: bool
  Window :: int64
  ObserveEvery :: int64
  ObserveRMS :: bool
  pending :: "byte list"
  squares :: "int64 list option"
  cap_squares :: nat
  nwindow :: int64
  sum_a :: int64
  next_a :: int
  countdown :: int64
  nobserve :: int64
  ObservePeak :: bool
  peak :: int64
  wordMax :: "64 word"
  observed :: "observation list"

type_synonym 'a result = "error \<times> Analyzer + 'a"

subsection \<open>First call: validation and derived constants (lines 232-244)\<close>

definition bad_parameters :: "Analyzer \<Rightarrow> bool" where
  "bad_parameters a \<longleftrightarrow>
     Channels a <s 1 \<or> WordSize a = 0 \<or> WordSize a AND 7 \<noteq> 0 \<or> 64 \<le> WordSize a \<or>
     SampleRate a <s 1 \<or> quo (SampleRate a * ObserveEvery a) second <s 1"

text \<open>\<^verbatim>\<open>make([]int64, 0, n)\<close> panics for a negative \<open>n\<close>; memory is taken to be
  unbounded otherwise.\<close>

definition make_squares :: "Analyzer \<Rightarrow> Analyzer result" where
  "make_squares a =
     (if Window a \<noteq> ObserveEvery a then
        (if nwindow a <s 0 then Inl (PanicMakeSlice, a)
         else Inr (a\<lparr>squares := Some [], cap_squares := nat (sint (nwindow a))\<rparr>))
      else Inr a)"

definition init :: "Analyzer \<Rightarrow> Analyzer result" where
  "init a =
     (if nwindow a = 0 then
        (if bad_parameters a then Inl (ErrBadParameters, a)
         else
           (case make_squares
                   (a\<lparr>nwindow := quo (Channels a * SampleRate a * Window a) second\<rparr>) of
              Inl e \<Rightarrow> Inl e
            | Inr a1 \<Rightarrow>
                (let a2 = a1\<lparr>next_a := - 1,
                              wordMax := push_bit (unat (WordSize a1 - 1)) 1\<rparr>;
                     a3 = a2\<lparr>nobserve :=
                                quo (SampleRate a2 * ObserveEvery a2) second - 1\<rparr>
                 in Inr (a3\<lparr>countdown := nobserve a3\<rparr>))))
      else Inr a)"

subsection \<open>Decoding one word (lines 258-269)\<close>

text \<open>The byte loop \<^verbatim>\<open>for b := uint(0); b < a.WordSize; b += 8\<close>.  \<open>None\<close> is the
  panic of \<^verbatim>\<open>p[0]\<close> on an empty slice.  The counter is a \<open>nat\<close>: it cannot wrap
  while the word size is below \<open>2 ^ 64 - 8\<close>, and validation keeps it below 64.\<close>

function read_word ::
  "nat \<Rightarrow> nat \<Rightarrow> nat \<Rightarrow> nat \<Rightarrow> int64 \<Rightarrow> byte list \<Rightarrow> (int64 \<times> byte list) option" where
  "read_word bigshift littleshift w b s p =
     (if b < w then
        (case p of
           [] \<Rightarrow> None
         | x # p' \<Rightarrow>
             read_word bigshift littleshift w (b + 8)
               (push_bit (bigshift * 8) s OR push_bit (littleshift * b) (ucast x)) p')
      else Some (s, p))"
  by pat_completeness auto
termination
  by (relation "measure (\<lambda>(bigshift, littleshift, w, b, s, p). w - b)") auto

definition bigshift :: "Analyzer \<Rightarrow> nat" where
  "bigshift a = (if LittleEndian a then 0 else 1)"

definition littleshift :: "Analyzer \<Rightarrow> nat" where
  "littleshift a = (if LittleEndian a then 1 else 0)"

definition sign_convert :: "Analyzer \<Rightarrow> int64 \<Rightarrow> int64" where
  "sign_convert a s =
     (if Signed a then
        (if s AND push_bit (unat (WordSize a - 1)) 1 \<noteq> 0
         then (s XOR (push_bit (unat (WordSize a)) 1 - 1)) + 1
         else s)
      else s - push_bit (unat (WordSize a - 1)) 1)"

subsection \<open>Rolling sum and peak (lines 270-287)\<close>

definition advance :: "Analyzer \<Rightarrow> int64 list \<Rightarrow> int \<times> int64 list" where
  "advance a sq =
     (let nx = next_a a + 1 in
      if nx = int (cap_squares a) then (0, sq)
      else if nx = int (length sq) then (nx, sq @ [0])
      else (nx, sq))"

definition roll :: "Analyzer \<Rightarrow> int64 \<Rightarrow> Analyzer result" where
  "roll a square =
     (case squares a of
        None \<Rightarrow> Inr a
      | Some sq \<Rightarrow>
          (case advance a sq of
             (nx, sq1) \<Rightarrow>
               (let a1 = a\<lparr>squares := Some sq1, next_a := nx\<rparr> in
                if nx < 0 \<or> int (length sq1) \<le> nx then Inl (PanicIndexSquares, a1)
                else Inr (a1\<lparr>sum_a := sum_a a1 - sq1 ! nat nx,
                             squares := Some (sq1[nat nx := square])\<rparr>))))"

definition track_peak :: "Analyzer \<Rightarrow> int64 \<Rightarrow> Analyzer" where
  "track_peak a s =
     (if peak a <s s then a\<lparr>peak := s\<rparr>
      else if peak a <s - s then a\<lparr>peak := - s\<rparr>
      else a)"

definition add_sample :: "Analyzer \<Rightarrow> int64 \<Rightarrow> Analyzer result" where
  "add_sample a s =
     (let square = s * s in
      case roll (a\<lparr>sum_a := sum_a a + square\<rparr>) square of
        Inl e \<Rightarrow> Inl e
      | Inr a1 \<Rightarrow> Inr (track_peak a1 s))"

subsection \<open>One frame (lines 257-288)\<close>

text \<open>The channel loop \<^verbatim>\<open>for c := 0; c < a.Channels; c++\<close>.\<close>

function channels_loop :: "Analyzer \<Rightarrow> int \<Rightarrow> byte list \<Rightarrow> (Analyzer \<times> byte list) result" where
  "channels_loop a c p =
     (if c < sint (Channels a) then
        (case read_word (bigshift a) (littleshift a) (unat (WordSize a)) 0 0 p of
           None \<Rightarrow> Inl (PanicIndexBytes, a)
         | Some (s, p') \<Rightarrow>
             (case add_sample a (sign_convert a s) of
                Inl e \<Rightarrow> Inl e
              | Inr a' \<Rightarrow> channels_loop a' (c + 1) p'))
      else Inr (a, p))"
  by pat_completeness auto
termination
  by (relation "measure (\<lambda>(a, c, p). nat (sint (Channels a) - c))")
    (auto simp: add_sample_def roll_def track_peak_def Let_def
      split: sum.splits option.splits prod.splits if_splits)

subsection \<open>Reporting (lines 289-305)\<close>

definition observe_rms :: "Analyzer \<Rightarrow> int64 \<Rightarrow> Analyzer result" where
  "observe_rms a n =
     (if ObserveRMS a then
        (if n = 0 then Inl (PanicDivide, a)
         else Inr (a\<lparr>observed := observed a @ [RMS (sum_a a) n]\<rparr>))
      else Inr a)"

definition observe_peak :: "Analyzer \<Rightarrow> Analyzer" where
  "observe_peak a =
     (if ObservePeak a then a\<lparr>observed := observed a @ [Peak (peak a)], peak := 0\<rparr>
      else a)"

definition report :: "Analyzer \<Rightarrow> Analyzer result" where
  "report a =
     (let a1 = a\<lparr>countdown := countdown a - 1\<rparr> in
      if countdown a1 = 0 then
        (let n = (case squares a1 of None \<Rightarrow> nwindow a1
                  | Some sq \<Rightarrow> word_of_nat (length sq)) in
         case observe_rms a1 n of
           Inl e \<Rightarrow> Inl e
         | Inr a2 \<Rightarrow>
             (let a3 = observe_peak a2;
                  a4 = (if squares a3 = None then a3\<lparr>sum_a := 0\<rparr> else a3)
              in Inr (a4\<lparr>countdown := nobserve a4\<rparr>)))
      else Inr a1)"

subsection \<open>The frame loop and \<^verbatim>\<open>Write\<close> (lines 246-308)\<close>

definition frame_bytes :: "Analyzer \<Rightarrow> int" where
  "frame_bytes a = sint (Channels a * WordSize a) sdiv 8"

text \<open>The loop \<^verbatim>\<open>for len(p) >= a.Channels*int(a.WordSize)/8\<close>.  It does not end when
  a frame takes no byte, so it is a partial function: \<open>None\<close> is a run that does not
  return.\<close>

partial_function (option) frames :: "Analyzer \<Rightarrow> byte list \<Rightarrow> (Analyzer \<times> byte list) result option" where
  "frames a p =
     (if frame_bytes a \<le> int (length p) then
        (case channels_loop a 0 p of
           Inl e \<Rightarrow> Some (Inl e)
         | Inr (a1, p') \<Rightarrow>
             (case report a1 of
                Inl e \<Rightarrow> Some (Inl e)
              | Inr a2 \<Rightarrow> frames a2 p'))
      else Some (Inr (a, p)))"

declare frames.simps [code]

text \<open>\<^verbatim>\<open>Write\<close> returns \<^verbatim>\<open>(n, err)\<close>; the model adds the analyzer after the call.
  A panic is reported like an error, with \<open>n = 0\<close> and the analyzer as the panic left
  it.\<close>

definition Write :: "Analyzer \<Rightarrow> byte list \<Rightarrow> (nat \<times> error option \<times> Analyzer) option" where
  "Write a p =
     (case init a of
        Inl (e, a') \<Rightarrow> Some (0, Some e, a')
      | Inr a0 \<Rightarrow>
          (let n = length p;
               p1 = (if 0 < length (pending a0) then pending a0 @ p else p)
           in case frames a0 p1 of
                None \<Rightarrow> None
              | Some (Inl (e, a')) \<Rightarrow> Some (0, Some e, a')
              | Some (Inr (a1, p2)) \<Rightarrow> Some (n, None, a1\<lparr>pending := p2\<rparr>)))"

text \<open>A stream: one \<^verbatim>\<open>Write\<close> per chunk, stopping at the first error.\<close>

fun writes :: "Analyzer \<Rightarrow> byte list list \<Rightarrow> (error option \<times> Analyzer) option" where
  "writes a [] = Some (None, a)"
| "writes a (p # ps) =
     (case Write a p of
        None \<Rightarrow> None
      | Some (n, Some e, a') \<Rightarrow> Some (Some e, a')
      | Some (n, None, a') \<Rightarrow> writes a' ps)"

text \<open>The zero value of the private fields, with the given configuration.\<close>

definition new_analyzer ::
  "int64 \<Rightarrow> 64 word \<Rightarrow> int64 \<Rightarrow> bool \<Rightarrow> bool \<Rightarrow> int64 \<Rightarrow> int64 \<Rightarrow> bool \<Rightarrow> bool \<Rightarrow> Analyzer" where
  "new_analyzer rate wsize chans le sg win every rms pk =
     \<lparr>SampleRate = rate, WordSize = wsize, Channels = chans, LittleEndian = le,
      Signed = sg, Window = win, ObserveEvery = every, ObserveRMS = rms,
      pending = [], squares = None, cap_squares = 0, nwindow = 0, sum_a = 0,
      next_a = 0, countdown = 0, nobserve = 0, ObservePeak = pk, peak = 0,
      wordMax = 0, observed = []\<rparr>"

section \<open>Notions used in the statements and proofs\<close>

text \<open>The quantities the code derives on the first call, as it computes them
  (lines 236 and 242), the frame size in bytes without wrap-around, and the checks of
  line 233 in the words of the specification.\<close>

definition same_setup :: "Analyzer \<Rightarrow> Analyzer \<Rightarrow> bool" where
  "same_setup a b \<longleftrightarrow>
     SampleRate b = SampleRate a \<and> WordSize b = WordSize a \<and> Channels b = Channels a \<and>
     LittleEndian b = LittleEndian a \<and> Signed b = Signed a \<and> Window b = Window a \<and>
     ObserveEvery b = ObserveEvery a \<and> ObserveRMS b = ObserveRMS a \<and>
     ObservePeak b = ObservePeak a \<and> cap_squares b = cap_squares a \<and>
     nwindow b = nwindow a \<and> nobserve b = nobserve a \<and> wordMax b = wordMax a \<and>
     pending b = pending a \<and> (squares b = None) = (squares a = None)"

definition word_bytes :: "Analyzer \<Rightarrow> nat" where
  "word_bytes a = unat (WordSize a) div 8"

definition frame_size :: "Analyzer \<Rightarrow> nat" where
  "frame_size a = nat (sint (Channels a)) * (unat (WordSize a) div 8)"

definition reportPeriodSamples :: "Analyzer \<Rightarrow> int64" where
  "reportPeriodSamples a = quo (SampleRate a * ObserveEvery a) second - 1"

definition windowSamples :: "Analyzer \<Rightarrow> int64" where
  "windowSamples a = quo (Channels a * SampleRate a * Window a) second"

definition valid_config :: "Analyzer \<Rightarrow> bool" where
  "valid_config a \<longleftrightarrow>
     1 \<le>s Channels a \<and>
     0 < WordSize a \<and> 8 dvd unat (WordSize a) \<and> WordSize a < 64 \<and>
     1 \<le>s SampleRate a \<and>
     0 \<le>s reportPeriodSamples a"

text \<open>The same in the words of the specification, over the unbounded integers:
  \<open>reportPeriodSamples = sampleRate * observeEvery / 1 second - 1\<close> with the product
  not wrapped around, the four conditions of validation stated with it, and the
  condition that the product fits in an \<^verbatim>\<open>int64\<close>, under which the code computes
  that value.\<close>

definition period_product :: "Analyzer \<Rightarrow> int" where
  "period_product a = sint (SampleRate a) * sint (ObserveEvery a)"

definition period_fits :: "Analyzer \<Rightarrow> bool" where
  "period_fits a \<longleftrightarrow> - (2 ^ 63) \<le> period_product a \<and> period_product a < 2 ^ 63"

definition reportPeriodSamples_spec :: "Analyzer \<Rightarrow> int" where
  "reportPeriodSamples_spec a = period_product a sdiv 1000000000 - 1"

definition spec_valid :: "Analyzer \<Rightarrow> bool" where
  "spec_valid a \<longleftrightarrow>
     1 \<le> sint (Channels a) \<and>
     0 < unat (WordSize a) \<and> 8 dvd unat (WordSize a) \<and> unat (WordSize a) < 64 \<and>
     1 \<le> sint (SampleRate a) \<and>
     0 \<le> reportPeriodSamples_spec a"

text \<open>Likewise \<open>windowSamples = channels * sampleRate * window / 1 second\<close> over
  the integers, and the condition under which line 236 computes that value: neither
  product wraps around.\<close>

definition window_product :: "Analyzer \<Rightarrow> int" where
  "window_product a = sint (Channels a) * sint (SampleRate a) * sint (Window a)"

definition window_fits :: "Analyzer \<Rightarrow> bool" where
  "window_fits a \<longleftrightarrow>
     - (2 ^ 63) \<le> sint (Channels a) * sint (SampleRate a) \<and>
     sint (Channels a) * sint (SampleRate a) < 2 ^ 63 \<and>
     - (2 ^ 63) \<le> window_product a \<and> window_product a < 2 ^ 63"

definition windowSamples_spec :: "Analyzer \<Rightarrow> int" where
  "windowSamples_spec a = window_product a sdiv 1000000000"

definition fresh :: "Analyzer \<Rightarrow> bool" where
  "fresh a \<longleftrightarrow>
     pending a = [] \<and> squares a = None \<and> cap_squares a = 0 \<and> nwindow a = 0 \<and>
     sum_a a = 0 \<and> next_a a = 0 \<and> countdown a = 0 \<and> nobserve a = 0 \<and> peak a = 0 \<and>
     wordMax a = 0 \<and> observed a = []"

definition same_config :: "Analyzer \<Rightarrow> Analyzer \<Rightarrow> bool" where
  "same_config a b \<longleftrightarrow>
     SampleRate b = SampleRate a \<and> WordSize b = WordSize a \<and> Channels b = Channels a \<and>
     LittleEndian b = LittleEndian a \<and> Signed b = Signed a \<and> Window b = Window a \<and>
     ObserveEvery b = ObserveEvery a \<and> ObserveRMS b = ObserveRMS a \<and>
     ObservePeak b = ObservePeak a"


definition counted_down :: "Analyzer \<Rightarrow> nat \<Rightarrow> bool" where
  "counted_down b m \<longleftrightarrow> (\<exists>j. countdown b = - word_of_nat j \<and> j + m < 2 ^ 63)"

definition ring_ok :: "Analyzer \<Rightarrow> bool" where
  "ring_ok a \<longleftrightarrow>
     (case squares a of
        None \<Rightarrow> True
      | Some sq \<Rightarrow>
          length sq \<le> cap_squares a \<and> 0 < cap_squares a \<and> cap_squares a < 2 ^ 63 \<and>
          - 1 \<le> next_a a \<and>
          (next_a a + 1 = int (length sq) \<or>
           (length sq = cap_squares a \<and> next_a a < int (cap_squares a))))"

definition ring_filled :: "Analyzer \<Rightarrow> bool" where
  "ring_filled a \<longleftrightarrow> (case squares a of None \<Rightarrow> True | Some sq \<Rightarrow> sq \<noteq> [])"

definition no_wrap :: "Analyzer \<Rightarrow> bool" where
  "no_wrap a \<longleftrightarrow> sint (Channels a) * int (unat (WordSize a)) < 2 ^ 63"

definition panic_cause :: "Analyzer \<Rightarrow> error \<Rightarrow> bool" where
  "panic_cause a e \<longleftrightarrow>
     (e = PanicIndexBytes \<and> \<not> no_wrap a) \<or> (e = PanicDivide \<and> windowSamples a = 0)"

text \<open>An analyzer with other pending bytes; an analyzer that the first call has set up
  under a configuration where nothing wraps around; and an analyzer that is either new
  with such a configuration or set up.\<close>

definition with_pending :: "byte list \<Rightarrow> Analyzer \<Rightarrow> Analyzer" where
  "with_pending x a = a\<lparr>pending := x\<rparr>"

definition ready :: "Analyzer \<Rightarrow> bool" where
  "ready a \<longleftrightarrow>
     \<not> bad_parameters a \<and> no_wrap a \<and> windowSamples a \<noteq> 0 \<and>
     nwindow a = windowSamples a \<and> ring_ok a \<and>
     (if Window a = ObserveEvery a then squares a = None else 0 <s windowSamples a)"

definition startable :: "Analyzer \<Rightarrow> bool" where
  "startable a \<longleftrightarrow>
     (fresh a \<and> valid_config a \<and> no_wrap a \<and> windowSamples a \<noteq> 0) \<or> ready a"

text \<open>The reference for the streaming contract: the stream \<open>B\<close> of all bytes written
  so far, cut into whole frames.  \<open>frame_of a B k\<close> is the \<open>k\<close>-th frame,
  \<open>whole_frames a B k\<close> decodes the first \<open>k\<close> frames one after the other, each
  followed by the countdown step of lines 289 to 305, \<open>whole_stream a B\<close> sets the
  analyzer up and decodes every whole frame of \<open>B\<close>, and \<open>leftover a B\<close> is what
  remains of \<open>B\<close> after its whole frames.\<close>

definition frame_of :: "Analyzer \<Rightarrow> byte list \<Rightarrow> nat \<Rightarrow> byte list" where
  "frame_of a B k = take (frame_size a) (drop (k * frame_size a) B)"

primrec whole_frames :: "Analyzer \<Rightarrow> byte list \<Rightarrow> nat \<Rightarrow> Analyzer result" where
  "whole_frames a B 0 = Inr a"
| "whole_frames a B (Suc k) =
     (case whole_frames a B k of
        Inl e \<Rightarrow> Inl e
      | Inr b \<Rightarrow>
          (case channels_loop b 0 (frame_of a B k) of
             Inl e \<Rightarrow> Inl e
           | Inr (a1, r) \<Rightarrow> report a1))"

definition whole_stream :: "Analyzer \<Rightarrow> byte list \<Rightarrow> Analyzer result" where
  "whole_stream a B =
     (case init a of
        Inl e \<Rightarrow> Inl e
      | Inr a0 \<Rightarrow> whole_frames a0 B (length B div frame_size a0))"

definition leftover :: "Analyzer \<Rightarrow> byte list \<Rightarrow> byte list" where
  "leftover a B = drop (length B div frame_size a * frame_size a) B"

text \<open>Notions for the claims on reports and on the running sum.  \<open>held a\<close> is the
  number of squares in the circular buffer, \<open>window_list a\<close> the buffer read from its
  oldest entry to its newest, and \<open>push cap w q\<close> a window of at most \<open>cap\<close>
  entries after one more entry.  \<open>decode_samples a n p\<close> decodes \<open>n\<close> words from
  the bytes \<open>p\<close> as lines 258 to 270 do, \<open>stream_samples a B\<close> is the list of all
  samples in the whole frames of the stream \<open>B\<close>, \<open>recent n xs\<close> the last \<open>n\<close>
  elements of \<open>xs\<close> (all of them when there are fewer), and \<open>sum_squares\<close> the sum
  of the squares in \<^verbatim>\<open>int64\<close>.  \<open>rms_calls\<close> and \<open>peak_calls\<close> are the calls of each
  observer in the log; a call of the RMS observer is kept as the pair of the running
  sum and the divisor \<open>n\<close> of line 295, from which the reported value
  \<^verbatim>\<open>10 * math.Log10(math.Sqrt(float64(a.sum/n))/a.wordMax)\<close> is computed.
  \<open>report_divisor a j\<close> and \<open>report_sum a B j\<close> are the divisor and the sum of the
  \<open>j\<close>-th report (from 0) of the stream \<open>B\<close>, which is made after
  \<open>(j + 1) * reportPeriodSamples\<close> frames.\<close>

definition held :: "Analyzer \<Rightarrow> nat" where
  "held a = (case squares a of None \<Rightarrow> 0 | Some sq \<Rightarrow> length sq)"

definition window_list :: "Analyzer \<Rightarrow> int64 list" where
  "window_list a =
     (case squares a of
        None \<Rightarrow> []
      | Some sq \<Rightarrow> drop (nat (next_a a + 1)) sq @ take (nat (next_a a + 1)) sq)"

definition push :: "nat \<Rightarrow> 'a list \<Rightarrow> 'a \<Rightarrow> 'a list" where
  "push cap w q = (if length w < cap then w @ [q] else tl w @ [q])"

fun decode_samples :: "Analyzer \<Rightarrow> nat \<Rightarrow> byte list \<Rightarrow> int64 list" where
  "decode_samples a 0 p = []"
| "decode_samples a (Suc n) p =
     (case read_word (bigshift a) (littleshift a) (unat (WordSize a)) 0 0 p of
        None \<Rightarrow> []
      | Some (s, p') \<Rightarrow> sign_convert a s # decode_samples a n p')"

definition stream_samples :: "Analyzer \<Rightarrow> byte list \<Rightarrow> int64 list" where
  "stream_samples a B = decode_samples a (length B div frame_size a * nat (sint (Channels a))) B"

definition recent :: "nat \<Rightarrow> 'a list \<Rightarrow> 'a list" where
  "recent n xs = drop (length xs - n) xs"

definition sum_squares :: "int64 list \<Rightarrow> int64" where
  "sum_squares xs = sum_list (map (\<lambda>s. s * s) xs)"

definition rms_calls :: "observation list \<Rightarrow> (int64 \<times> int64) list" where
  "rms_calls log = concat (map (\<lambda>ob. case ob of RMS s n \<Rightarrow> [(s, n)] | Peak p \<Rightarrow> []) log)"

definition peak_calls :: "observation list \<Rightarrow> int64 list" where
  "peak_calls log = concat (map (\<lambda>ob. case ob of RMS s n \<Rightarrow> [] | Peak p \<Rightarrow> [p]) log)"

definition report_divisor :: "Analyzer \<Rightarrow> nat \<Rightarrow> int64" where
  "report_divisor a j =
     (if Window a = ObserveEvery a then windowSamples a
      else word_of_nat (min ((j + 1) * nat (sint (reportPeriodSamples a)) * nat (sint (Channels a)))
        (nat (sint (windowSamples a)))))"

definition report_sum :: "Analyzer \<Rightarrow> byte list \<Rightarrow> nat \<Rightarrow> int64" where
  "report_sum a B j =
     sum_squares
       (recent
          (if Window a = ObserveEvery a
           then nat (sint (reportPeriodSamples a)) * nat (sint (Channels a))
           else nat (sint (windowSamples a)))
          (decode_samples a
             ((j + 1) * nat (sint (reportPeriodSamples a)) * nat (sint (Channels a))) B))"

subsection \<open>Example configurations\<close>

text \<open>Three samples per second, one channel of signed 8-bit words, window and report
  interval of one second, both observers set.\<close>

definition mono8 :: Analyzer where
  "mono8 = new_analyzer 3 8 1 True True second second True True"

text \<open>The same with no channel, and with the RMS observer only.\<close>

definition no_channels :: Analyzer where
  "no_channels = new_analyzer 3 8 0 True True second second True True"

definition mono8_rms :: Analyzer where
  "mono8_rms = new_analyzer 3 8 1 True True second second True False"

text \<open>\<open>mono8\<close> after the first call, one frame before a report is due.\<close>

definition mono8_due :: Analyzer where
  "mono8_due = mono8\<lparr>nwindow := 3, sum_a := 18, next_a := - 1, countdown := 1,
     nobserve := 2, peak := 3, wordMax := 128\<rparr>"

text \<open>One sample per report interval, so that \<open>reportPeriodSamples\<close> is 0.\<close>

definition one_hz :: Analyzer where
  "one_hz = new_analyzer 1 8 1 True True second second True True"

text \<open>Two channels, a window of two seconds reported every second (circular-buffer
  mode, twelve squares), and the same with a window of zero.\<close>

definition stereo8_long :: Analyzer where
  "stereo8_long = new_analyzer 3 8 2 True True (2 * second) second True True"

definition stereo8_nowindow :: Analyzer where
  "stereo8_nowindow = new_analyzer 3 8 2 True True 0 second True True"

text \<open>\<open>mono8\<close> with two channels: six samples per second in frames of two.\<close>

definition stereo8 :: Analyzer where
  "stereo8 = new_analyzer 3 8 2 True True second second True True"

text \<open>A configuration that passes validation although \<open>windowSamples\<close> wraps around to
  0: four channels at \<open>2 ^ 31\<close> samples per second, window and report interval of
  \<open>2 ^ 31\<close> nanoseconds, no observer.\<close>

definition wrapped_window :: Analyzer where
  "wrapped_window =
     new_analyzer 2147483648 8 4 True True 2147483648 2147483648 False False"

text \<open>Configurations where \<^verbatim>\<open>a.SampleRate * int(a.ObserveEvery)\<close> wraps around, all
  with one channel of signed 8-bit words, window equal to the report interval and both
  observers set: \<open>2 ^ 32\<close> samples per second reported every \<open>2 ^ 31\<close> nanoseconds
  (the product is \<open>2 ^ 63\<close>); \<open>2 ^ 33\<close> samples per second with a negative interval
  of \<open>- (2 ^ 31 - 1)\<close> nanoseconds (the product wraps around to \<open>2 ^ 33\<close>); and
  \<open>2 ^ 33\<close> samples per second reported every \<open>2 ^ 31 + 1\<close> nanoseconds (the
  product \<open>2 ^ 64 + 2 ^ 33\<close> wraps around to \<open>2 ^ 33\<close>).\<close>

definition bigrate :: Analyzer where
  "bigrate = new_analyzer 4294967296 8 1 True True 2147483648 2147483648 True True"

definition negative_interval :: Analyzer where
  "negative_interval =
     new_analyzer 8589934592 8 1 True True (- 2147483647) (- 2147483647) True True"


text \<open>\<open>2 ^ 61\<close> channels of 8-bit words at one sample per second: the frame size in
  bits, \<^verbatim>\<open>a.Channels*int(a.WordSize)\<close>, wraps around to 0.\<close>

definition widech :: Analyzer where
  "widech = new_analyzer 1 8 2305843009213693952 True True second second True True"

text \<open>\<open>mono8\<close> with a window of minus two seconds, reported every second.\<close>

definition negwin :: Analyzer where
  "negwin = new_analyzer 3 8 1 True True (- (2 * second)) second True True"

section \<open>Word arithmetic\<close>

lemma take_bit_self_word:
  fixes raw :: int64
  assumes "uint raw < 2 ^ n"
  shows "take_bit n raw = raw"
  using assms by (simp add: word_uint_eq_iff unsigned_take_bit_eq take_bit_int_eq_self_iff)

lemma top_bit_iff:
  fixes raw :: int64
  assumes "0 < n" "n \<le> 64" "uint raw < 2 ^ n"
  shows "bit raw (n - 1) = (2 ^ (n - 1) \<le> uint raw)"
proof -
  obtain m where n: "n = Suc m" using assms(1) by (cases n) auto
  define t where "t = take_bit m (uint raw)"
  have "take_bit (Suc m) (uint raw) = uint raw"
    using assms(3) n by (simp add: take_bit_int_eq_self_iff)
  then have eq: "uint raw = 2 ^ m * of_bool (bit (uint raw) m) + t"
    using take_bit_Suc_from_most [of m "uint raw"] by (simp add: t_def)
  have t: "t < 2 ^ m" "0 \<le> t" by (simp_all add: t_def)
  have "bit (uint raw) m = (2 ^ m \<le> uint raw)"
  proof (cases "bit (uint raw) m")
    case True
    with eq have "uint raw = 2 ^ m + t" by simp
    with t True show ?thesis by linarith
  next
    case False
    with eq have "uint raw = t" by simp
    with t False show ?thesis by linarith
  qed
  moreover have "bit (uint raw) m = bit raw m"
    using assms(2) n by (simp add: bit_uint_iff)
  ultimately show ?thesis
    by (simp add: n)
qed

lemma xor_mask_neg:
  fixes raw :: int64
  assumes "uint raw < 2 ^ n"
  shows "(raw XOR (2 ^ n - 1)) + 1 = 2 ^ n - raw"
proof -
  have tb: "take_bit n raw = raw" using assms by (rule take_bit_self_word)
  have z: "NOT (mask n) AND raw = 0"
    by (subst tb [symmetric]) (simp add: bit_eq_iff bit_simps)
  have "mask n - raw = mask n AND NOT raw"
    using z by (rule disjunctive_diff_eq_and_not)
  also have "\<dots> = mask n XOR raw"
    using z by (rule disjunctive_and_not_eq_xor)
  finally have "raw XOR mask n = mask n - raw" by (simp add: xor.commute)
  then show ?thesis by (simp add: mask_eq_exp_minus_1)
qed

lemma sint_word_of_int_64:
  "- (2 ^ 63) \<le> k \<Longrightarrow> k < 2 ^ 63 \<Longrightarrow> sint (word_of_int k :: int64) = k"
  by (simp add: signed_of_int signed_take_bit_int_eq_self)

lemma sint_small:
  fixes x :: int64
  assumes "uint x < 2 ^ 63"
  shows "sint x = uint x"
proof -
  have "- (2 ^ 63) \<le> uint x" by (rule order_trans [of _ 0]) simp_all
  then show ?thesis
    using assms by (simp add: sint_uint signed_take_bit_int_eq_self)
qed

lemma uint_or_less:
  fixes x y :: int64
  assumes "uint x < 2 ^ n" "uint y < 2 ^ n"
  shows "uint (x OR y) < 2 ^ n"
proof -
  have "uint (x OR y) = uint x OR uint y" by (simp add: uint_or)
  also have "\<dots> < 2 ^ n" using assms by (intro OR_upper) simp_all
  finally show ?thesis .
qed

lemma uint_push_bit_less:
  fixes x :: int64
  assumes "uint x < 2 ^ m"
  shows "uint (push_bit k x) < 2 ^ (k + m)"
proof -
  have "uint (push_bit k x) = take_bit 64 (push_bit k (uint x))"
    by (simp add: unsigned_push_bit_eq)
  also have "\<dots> \<le> push_bit k (uint x)"
    by (rule take_bit_int_less_eq_self_iff [THEN iffD2]) simp
  also have "\<dots> < 2 ^ (k + m)"
    using assms by (simp add: push_bit_eq_mult power_add)
  finally show ?thesis .
qed

lemma uint_ucast_byte: "uint (ucast (x :: byte) :: int64) < 2 ^ 8"
proof -
  have "uint (ucast x :: int64) = uint x" by (simp add: uint_up_ucast is_up)
  moreover have "uint x < 2 ^ 8" using uint_bounded [of x] by simp
  ultimately show ?thesis by simp
qed

section \<open>Decoding\<close>

lemma read_word_bound:
  assumes "read_word bs ls w b s p = Some (raw, p')"
    and "(bs = 1 \<and> ls = 0) \<or> (bs = 0 \<and> ls = 1)"
    and "8 dvd w" "8 dvd b" "b \<le> w" "uint s < 2 ^ b"
  shows "uint raw < 2 ^ w"
  using assms
proof (induction bs ls w b s p rule: read_word.induct)
  case (1 bs ls w b s p)
  show ?case
  proof (cases "b < w")
    case False
    with "1.prems" show ?thesis by simp
  next
    case True
    then obtain x q where p: "p = x # q"
      using "1.prems"(1) by (cases p) auto
    let ?s = "push_bit (bs * 8) s OR push_bit (ls * b) (ucast x)"
    have rec: "read_word bs ls w (b + 8) ?s q = Some (raw, p')"
      using "1.prems"(1) True p by simp
    have le: "b + 8 \<le> w"
      using True "1.prems"(3,4) by (auto elim!: dvdE)
    have "uint (push_bit (bs * 8) s) < 2 ^ (b + 8)"
    proof (cases "bs = 1")
      case True
      then show ?thesis
        using uint_push_bit_less [OF "1.prems"(6), of 8] by (simp add: add.commute)
    next
      case False
      then have "bs = 0" using "1.prems"(2) by auto
      then show ?thesis
      proof -
        have "(2::int) ^ b \<le> 2 ^ (b + 8)" by (rule power_increasing) simp_all
        with "1.prems"(6) have "uint s < 2 ^ (b + 8)" by (rule less_le_trans)
        with \<open>bs = 0\<close> show ?thesis by simp
      qed
    qed
    moreover have "uint (push_bit (ls * b) (ucast x :: int64)) < 2 ^ (b + 8)"
    proof (cases "ls = 1")
      case True
      then show ?thesis
        using uint_push_bit_less [OF uint_ucast_byte, of b x] by simp
    next
      case False
      then have "ls = 0" using "1.prems"(2) by auto
      then show ?thesis
        using uint_ucast_byte [of x] power_increasing [of 8 "b + 8" "2::int"] by simp
    qed
    ultimately have "uint ?s < 2 ^ (b + 8)" by (rule uint_or_less)
    then show ?thesis
      using "1.IH" [OF True p rec "1.prems"(2) "1.prems"(3) _ le] "1.prems"(4) by simp
  qed
qed

lemma valid_word_size:
  assumes "\<not> bad_parameters a"
  shows "0 < unat (WordSize a)" "unat (WordSize a) < 64" "8 dvd unat (WordSize a)"
proof -
  from assms have nz: "WordSize a \<noteq> 0" and a7: "WordSize a AND 7 = 0" and lt: "WordSize a < 64"
    by (auto simp: bad_parameters_def)
  show "0 < unat (WordSize a)" using nz by (simp add: unat_gt_0)
  show "unat (WordSize a) < 64" using lt by (simp add: word_less_nat_alt)
  have "take_bit 3 (WordSize a) = 0" using a7 by (simp add: take_bit_eq_mask mask_eq_exp_minus_1)
  then have "take_bit 3 (unat (WordSize a)) = 0"
    by (simp add: word_unat_eq_iff unsigned_take_bit_eq)
  then show "8 dvd unat (WordSize a)" by (simp add: take_bit_eq_mod mod_eq_0_iff_dvd)
qed

section \<open>Effect of the steps\<close>

lemma same_setup_refl [simp]: "same_setup a a"
  by (simp add: same_setup_def)

lemma same_setup_trans: "same_setup a b \<Longrightarrow> same_setup b c \<Longrightarrow> same_setup a c"
  by (simp add: same_setup_def)

lemma read_word_drop:
  assumes "read_word bs ls w b s p = Some (raw, p')" "8 dvd w" "8 dvd b" "b \<le> w"
  shows "p' = drop ((w - b) div 8) p \<and> (w - b) div 8 \<le> length p"
  using assms
proof (induction bs ls w b s p rule: read_word.induct)
  case (1 bs ls w b s p)
  show ?case
  proof (cases "b < w")
    case False
    with "1.prems" show ?thesis by simp
  next
    case True
    then obtain x q where p: "p = x # q"
      using "1.prems"(1) by (cases p) auto
    have le: "b + 8 \<le> w"
      using True "1.prems"(2,3) by (auto elim!: dvdE)
    have rec: "read_word bs ls w (b + 8)
        (push_bit (bs * 8) s OR push_bit (ls * b) (ucast x)) q = Some (raw, p')"
      using "1.prems"(1) True p by simp
    have "p' = drop ((w - (b + 8)) div 8) q \<and> (w - (b + 8)) div 8 \<le> length q"
      using "1.IH" [OF True p rec "1.prems"(2) _ le] "1.prems"(3) by simp
    moreover have "(w - b) div 8 = Suc ((w - (b + 8)) div 8)"
      using le "1.prems"(2,3) by (auto elim!: dvdE)
    ultimately show ?thesis by (simp add: p)
  qed
qed

lemma read_word_append:
  assumes "read_word bs ls w b s p = Some (raw, p')"
  shows "read_word bs ls w b s (p @ q) = Some (raw, p' @ q)"
  using assms
proof (induction bs ls w b s p rule: read_word.induct)
  case (1 bs ls w b s p)
  show ?case
  proof (cases "b < w")
    case False
    with "1.prems" show ?thesis by simp
  next
    case True
    then obtain x r where p: "p = x # r"
      using "1.prems"(1) by (cases p) auto
    have rec: "read_word bs ls w (b + 8)
        (push_bit (bs * 8) s OR push_bit (ls * b) (ucast x)) r = Some (raw, p')"
      using "1.prems"(1) True p by simp
    show ?thesis
      using "1.IH" [OF True p rec] True p by simp
  qed
qed

lemma add_sample_Inr:
  assumes "add_sample a s = Inr a'"
  shows "same_setup a a' \<and> countdown a' = countdown a \<and> observed a' = observed a"
  using assms
  by (auto simp: add_sample_def roll_def track_peak_def same_setup_def Let_def
      split: sum.splits option.splits prod.splits if_splits)

lemma add_sample_Inl:
  assumes "add_sample a s = Inl (e, ae)"
  shows "e = PanicIndexSquares \<and> same_setup a ae \<and> countdown ae = countdown a \<and>
    observed ae = observed a"
  using assms
  by (auto simp: add_sample_def roll_def track_peak_def same_setup_def Let_def
      split: sum.splits option.splits prod.splits if_splits)

lemma report_Inr:
  assumes "report a = Inr a'"
  shows "same_setup a a' \<and> squares a' = squares a \<and> next_a a' = next_a a"
  using assms
  by (auto simp: report_def observe_rms_def observe_peak_def same_setup_def Let_def
      split: sum.splits option.splits if_splits)

lemma report_Inl:
  assumes "report a = Inl (e, ae)"
  shows "e = PanicDivide \<and> same_setup a ae \<and> observed ae = observed a"
  using assms
  by (auto simp: report_def observe_rms_def observe_peak_def same_setup_def Let_def
      split: sum.splits option.splits if_splits)

lemma channels_loop_Inr:
  assumes "channels_loop a c p = Inr (a1, p')" "8 dvd unat (WordSize a)" "c \<le> sint (Channels a)"
  shows "same_setup a a1 \<and> countdown a1 = countdown a \<and> observed a1 = observed a \<and>
    p' = drop (nat (sint (Channels a) - c) * word_bytes a) p \<and>
    nat (sint (Channels a) - c) * word_bytes a \<le> length p"
  using assms
proof (induction a c p rule: channels_loop.induct)
  case (1 a c p)
  show ?case
  proof (cases "c < sint (Channels a)")
    case False
    with "1.prems" show ?thesis by simp
  next
    case True
    obtain s q where rw: "read_word (bigshift a) (littleshift a) (unat (WordSize a)) 0 0 p = Some (s, q)"
      using "1.prems"(1) True by (auto split: option.splits)
    obtain a' where as: "add_sample a (sign_convert a s) = Inr a'"
      using "1.prems"(1) True rw by (auto split: sum.splits)
    have rec: "channels_loop a' (c + 1) q = Inr (a1, p')"
      using "1.prems"(1) True rw as by simp
    note st = add_sample_Inr [OF as]
    have ws: "WordSize a' = WordSize a" "Channels a' = Channels a"
      using st by (simp_all add: same_setup_def)
    have q: "q = drop (word_bytes a) p" "word_bytes a \<le> length p"
      using read_word_drop [OF rw "1.prems"(2)] by (simp_all add: word_bytes_def)
    have ih: "same_setup a' a1 \<and> countdown a1 = countdown a' \<and> observed a1 = observed a' \<and>
      p' = drop (nat (sint (Channels a') - (c + 1)) * word_bytes a') q \<and>
      nat (sint (Channels a') - (c + 1)) * word_bytes a' \<le> length q"
      using "1.IH" [OF True rw refl as rec] "1.prems"(2) True ws by simp
    have n: "nat (sint (Channels a) - c) = Suc (nat (sint (Channels a) - (c + 1)))"
      using True by simp
    have wb: "word_bytes a' = word_bytes a" using ws by (simp add: word_bytes_def)
    define k where "k = nat (sint (Channels a) - (c + 1)) * word_bytes a"
    have k: "p' = drop k q" "k \<le> length q"
      using ih by (simp_all add: k_def wb ws)
    have "p' = drop (word_bytes a + k) p" "word_bytes a + k \<le> length p"
      using k q by (simp_all add: add.commute)
    moreover have "nat (sint (Channels a) - c) * word_bytes a = word_bytes a + k"
      by (simp add: n k_def)
    ultimately show ?thesis
      using ih st same_setup_trans [of a a' a1] by simp
  qed
qed

lemma channels_loop_Inl:
  assumes "channels_loop a c p = Inl (e, ae)"
  shows "(e = PanicIndexBytes \<or> e = PanicIndexSquares) \<and> same_setup a ae \<and>
    countdown ae = countdown a \<and> observed ae = observed a"
  using assms
proof (induction a c p rule: channels_loop.induct)
  case (1 a c p)
  have lt: "c < sint (Channels a)"
    using "1.prems" by (auto split: if_splits)
  show ?case
  proof (cases "read_word (bigshift a) (littleshift a) (unat (WordSize a)) 0 0 p")
    case None
    with "1.prems" lt show ?thesis by simp
  next
    case (Some sq)
    obtain s q where sq: "sq = (s, q)" by (cases sq)
    show ?thesis
    proof (cases "add_sample a (sign_convert a s)")
      case (Inl x)
      with "1.prems" lt Some sq have "x = (e, ae)" by simp
      with Inl add_sample_Inl [of a "sign_convert a s" e ae] show ?thesis by simp
    next
      case (Inr a')
      have rec: "channels_loop a' (c + 1) q = Inl (e, ae)"
        using "1.prems" lt Some sq Inr by simp
      from "1.IH" [OF lt Some [unfolded sq] refl Inr rec] add_sample_Inr [OF Inr]
      show ?thesis using same_setup_trans [of a a' ae] by simp
    qed
  qed
qed

lemma channels_loop_append:
  assumes "channels_loop a c p = Inr (a1, p')"
  shows "channels_loop a c (p @ q) = Inr (a1, p' @ q)"
  using assms
proof (induction a c p rule: channels_loop.induct)
  case (1 a c p)
  show ?case
  proof (cases "c < sint (Channels a)")
    case False
    with "1.prems" show ?thesis by simp
  next
    case True
    obtain s r where rw: "read_word (bigshift a) (littleshift a) (unat (WordSize a)) 0 0 p = Some (s, r)"
      using "1.prems"(1) True by (auto split: option.splits)
    obtain a' where as: "add_sample a (sign_convert a s) = Inr a'"
      using "1.prems"(1) True rw by (auto split: sum.splits)
    have rec: "channels_loop a' (c + 1) r = Inr (a1, p')"
      using "1.prems"(1) True rw as by simp
    show ?thesis
      using "1.IH" [OF True rw refl as rec] True read_word_append [OF rw, of q] as
      by (subst channels_loop.simps) simp
  qed
qed

lemma frames_rule:
  assumes "I a p"
    and step: "\<And>a p a1 p'. I a p \<Longrightarrow> frame_bytes a \<le> int (length p) \<Longrightarrow>
      channels_loop a 0 p = Inr (a1, p') \<Longrightarrow>
      length p' < length p \<and> (case report a1 of Inl (e, ae) \<Rightarrow> Q e ae | Inr a2 \<Rightarrow> I a2 p')"
    and err: "\<And>a p e ae. I a p \<Longrightarrow> frame_bytes a \<le> int (length p) \<Longrightarrow>
      channels_loop a 0 p = Inl (e, ae) \<Longrightarrow> Q e ae"
  shows "\<exists>r. frames a p = Some r \<and>
    (case r of Inl (e, ae) \<Rightarrow> Q e ae
     | Inr (a', p') \<Rightarrow> I a' p' \<and> \<not> frame_bytes a' \<le> int (length p'))"
  using assms(1)
proof (induction "length p" arbitrary: a p rule: less_induct)
  case less
  show ?case
  proof (cases "frame_bytes a \<le> int (length p)")
    case False
    with less.prems show ?thesis by (subst frames.simps) simp
  next
    case True
    show ?thesis
    proof (cases "channels_loop a 0 p")
      case (Inl x)
      obtain e ae where x: "x = (e, ae)" by (cases x)
      from err [OF less.prems True Inl [unfolded x]] True Inl x
      show ?thesis by (subst frames.simps) simp
    next
      case (Inr y)
      obtain a1 p' where y: "y = (a1, p')" by (cases y)
      note s = step [OF less.prems True Inr [unfolded y]]
      show ?thesis
      proof (cases "report a1")
        case (Inl x)
        obtain e ae where x: "x = (e, ae)" by (cases x)
        from s Inl x True Inr y show ?thesis by (subst frames.simps) simp
      next
        case r: (Inr a2)
        from s r have "I a2 p'" "length p' < length p" by simp_all
        from less.hyps [OF this(2) this(1)] True Inr y r
        show ?thesis by (subst frames.simps) simp
      qed
    qed
  qed
qed

section \<open>Validation and the first call\<close>

lemma abs_sdiv_second: "\<bar>k sdiv 1000000000\<bar> = \<bar>k\<bar> div 1000000000" for k :: int
  by (cases "k = 0") (simp_all add: signed_divide_int_def abs_mult abs_sgn_eq)

lemma sdiv_second_bound: "\<bar>sint (x :: int64) sdiv 1000000000\<bar> < 2 ^ 34"
proof -
  have b: "- (2 ^ 63) \<le> sint x" "sint x < 2 ^ 63"
    using sint_ge [of x] sint_lt [of x] by simp_all
  have "\<bar>sint x\<bar> div 1000000000 \<le> 2 ^ 63 div 1000000000"
    using b by (intro zdiv_mono1) auto
  then show ?thesis
    by (simp add: abs_sdiv_second)
qed

lemma sint_quo_second: "sint (quo x second) = sint x sdiv 1000000000"
proof -
  have s: "sint second = 1000000000" by (simp add: second_def)
  have "- (2 ^ 63) \<le> sint x sdiv 1000000000" "sint x sdiv 1000000000 < 2 ^ 63"
    using sdiv_second_bound [of x] by simp_all
  then show ?thesis
    unfolding quo_def s by (rule sint_word_of_int_64)
qed

lemma quo_second_bounds:
  "- (2 ^ 34) < sint (quo x second)" "sint (quo x second) < 2 ^ 34"
  using sdiv_second_bound [of x] by (simp_all add: sint_quo_second)

lemma sint_reportPeriodSamples:
  "sint (reportPeriodSamples a) = sint (quo (SampleRate a * ObserveEvery a) second) - 1"
proof -
  let ?q = "quo (SampleRate a * ObserveEvery a) second"
  have "?q - 1 = word_of_int (sint ?q - 1)" by simp
  moreover have "sint (word_of_int (sint ?q - 1) :: int64) = sint ?q - 1"
    using quo_second_bounds [of "SampleRate a * ObserveEvery a"]
    by (intro sint_word_of_int_64) auto
  ultimately show ?thesis by (simp add: reportPeriodSamples_def)
qed

lemma bad_parameters_iff: "bad_parameters a \<longleftrightarrow> \<not> valid_config a"
proof -
  have "(WordSize a AND 7 = 0) = (8 dvd unat (WordSize a))"
  proof -
    have "(WordSize a AND 7 = 0) = (take_bit 3 (WordSize a) = 0)"
      by (simp add: take_bit_eq_mask mask_eq_exp_minus_1)
    also have "\<dots> = (take_bit 3 (unat (WordSize a)) = 0)"
      by (simp add: word_unat_eq_iff unsigned_take_bit_eq)
    also have "\<dots> = (8 dvd unat (WordSize a))"
      by (simp add: take_bit_eq_mod mod_eq_0_iff_dvd)
    finally show ?thesis .
  qed
  moreover have "(WordSize a = 0) = (\<not> 0 < WordSize a)"
    by (simp add: word_greater_zero_iff)
  moreover have "(quo (SampleRate a * ObserveEvery a) second <s 1) =
      (\<not> 0 \<le>s reportPeriodSamples a)"
    by (auto simp: word_sless_alt word_sle_eq sint_reportPeriodSamples)
  ultimately show ?thesis
    by (auto simp: bad_parameters_def valid_config_def word_sless_alt word_sle_eq not_le not_less)
qed

lemma same_setup_config: "same_setup a b \<Longrightarrow> same_config a b"
  by (simp add: same_setup_def same_config_def)

lemma same_config_consts:
  assumes "same_config a b"
  shows "bad_parameters b = bad_parameters a" "frame_bytes b = frame_bytes a"
    "frame_size b = frame_size a" "reportPeriodSamples b = reportPeriodSamples a"
    "windowSamples b = windowSamples a" "word_bytes b = word_bytes a"
  using assms
  by (simp_all add: same_config_def bad_parameters_def frame_bytes_def frame_size_def
      reportPeriodSamples_def windowSamples_def word_bytes_def)

lemma valid_channels:
  assumes "\<not> bad_parameters a"
  shows "1 \<le> sint (Channels a)"
  using assms by (simp add: bad_parameters_def word_sless_alt)

lemma frame_size_pos:
  assumes "\<not> bad_parameters a"
  shows "0 < frame_size a"
proof -
  from valid_word_size [OF assms] have "8 \<le> unat (WordSize a)"
    by (auto elim!: dvdE)
  then have "0 < unat (WordSize a) div 8" by simp
  with valid_channels [OF assms] show ?thesis by (simp add: frame_size_def)
qed

lemma frame_consumed:
  assumes "\<not> bad_parameters a" "channels_loop a 0 p = Inr (a1, p')"
  shows "p' = drop (frame_size a) p" "frame_size a \<le> length p" "length p' < length p"
proof -
  note w = valid_word_size [OF assms(1)]
  from channels_loop_Inr [OF assms(2) w(3)] valid_channels [OF assms(1)]
  show *: "p' = drop (frame_size a) p" "frame_size a \<le> length p"
    by (simp_all add: frame_size_def word_bytes_def)
  with frame_size_pos [OF assms(1)] show "length p' < length p" by simp
qed

lemma init_Inl:
  assumes "init a = Inl (e, ae)"
  shows "nwindow a = 0 \<and> observed ae = observed a \<and> same_config a ae \<and>
    ((e = ErrBadParameters \<and> ae = a \<and> bad_parameters a) \<or>
     (e = PanicMakeSlice \<and> \<not> bad_parameters a \<and> Window a \<noteq> ObserveEvery a \<and>
      windowSamples a <s 0))"
  using assms
  by (auto simp: init_def make_squares_def windowSamples_def same_config_def Let_def
      split: if_splits sum.splits)

lemma init_again:
  assumes "nwindow a \<noteq> 0"
  shows "init a = Inr a"
  using assms by (simp add: init_def)

lemma init_first:
  assumes "init a = Inr a0" "nwindow a = 0"
  shows "\<not> bad_parameters a \<and> same_config a a0 \<and> pending a0 = pending a \<and>
    observed a0 = observed a \<and> sum_a a0 = sum_a a \<and> peak a0 = peak a \<and>
    nwindow a0 = windowSamples a \<and> nobserve a0 = reportPeriodSamples a \<and>
    countdown a0 = reportPeriodSamples a \<and> next_a a0 = - 1 \<and>
    (if Window a \<noteq> ObserveEvery a
     then squares a0 = Some [] \<and> cap_squares a0 = nat (sint (windowSamples a)) \<and>
       \<not> windowSamples a <s 0
     else squares a0 = squares a \<and> cap_squares a0 = cap_squares a)"
  using assms
  by (auto simp: init_def make_squares_def windowSamples_def reportPeriodSamples_def
      same_config_def Let_def split: if_splits sum.splits)

lemma Write_rule:
  assumes init_err: "\<And>e ae. init a = Inl (e, ae) \<Longrightarrow> Q e ae"
    and init_ok: "\<And>a0. init a = Inr a0 \<Longrightarrow> I a0 (pending a0 @ p)"
    and step: "\<And>a p a1 p'. I a p \<Longrightarrow> frame_bytes a \<le> int (length p) \<Longrightarrow>
      channels_loop a 0 p = Inr (a1, p') \<Longrightarrow>
      length p' < length p \<and> (case report a1 of Inl (e, ae) \<Rightarrow> Q e ae | Inr a2 \<Rightarrow> I a2 p')"
    and err: "\<And>a p e ae. I a p \<Longrightarrow> frame_bytes a \<le> int (length p) \<Longrightarrow>
      channels_loop a 0 p = Inl (e, ae) \<Longrightarrow> Q e ae"
  shows "\<exists>n e a'. Write a p = Some (n, e, a') \<and>
    (case e of
       Some er \<Rightarrow> n = 0 \<and> Q er a'
     | None \<Rightarrow> n = length p \<and>
         (\<exists>a1 p2. a' = a1\<lparr>pending := p2\<rparr> \<and> I a1 p2 \<and> \<not> frame_bytes a1 \<le> int (length p2)))"
proof (cases "init a")
  case (Inl x)
  obtain e ae where x: "x = (e, ae)" by (cases x)
  from init_err [OF Inl [unfolded x]] Inl x show ?thesis
    by (simp add: Write_def)
next
  case (Inr a0)
  have p1: "(if 0 < length (pending a0) then pending a0 @ p else p) = pending a0 @ p"
    by simp
  have "\<exists>r. frames a0 (pending a0 @ p) = Some r \<and>
    (case r of Inl (e, ae) \<Rightarrow> Q e ae
     | Inr (a', p') \<Rightarrow> I a' p' \<and> \<not> frame_bytes a' \<le> int (length p'))"
    by (rule frames_rule [where I = I and Q = Q])
      (fact init_ok [OF Inr], erule (2) step, erule (2) err)
  then obtain r where r: "frames a0 (pending a0 @ p) = Some r"
    "case r of Inl (e, ae) \<Rightarrow> Q e ae
     | Inr (a', p') \<Rightarrow> I a' p' \<and> \<not> frame_bytes a' \<le> int (length p')"
    by blast
  show ?thesis
  proof (cases r)
    case (Inl x)
    obtain e ae where x: "x = (e, ae)" by (cases x)
    from r Inl x Inr show ?thesis
      by (simp add: Write_def Let_def p1 del: length_greater_0_conv)
  next
    case r2: (Inr y)
    obtain a1 p2 where y: "y = (a1, p2)" by (cases y)
    from r r2 y Inr show ?thesis
      by (auto simp add: Write_def Let_def p1 simp del: length_greater_0_conv)
  qed
qed

lemma Write_not_bad_parameters:
  assumes "\<not> bad_parameters a"
  shows "\<exists>n e a'. Write a p = Some (n, e, a') \<and> e \<noteq> Some ErrBadParameters"
proof -
  define I where "I = (\<lambda>(b :: Analyzer) (q :: byte list). \<not> bad_parameters b)"
  define Q where "Q = (\<lambda>(e :: error) (b :: Analyzer). e \<noteq> ErrBadParameters)"
  have "\<exists>n e a'. Write a p = Some (n, e, a') \<and>
    (case e of
       Some er \<Rightarrow> n = 0 \<and> Q er a'
     | None \<Rightarrow> n = length p \<and>
         (\<exists>a1 p2. a' = a1\<lparr>pending := p2\<rparr> \<and> I a1 p2 \<and> \<not> frame_bytes a1 \<le> int (length p2)))"
  proof (rule Write_rule)
    fix e ae assume "init a = Inl (e, ae)"
    from init_Inl [OF this] assms show "Q e ae" by (auto simp: Q_def)
  next
    fix a0 assume i: "init a = Inr a0"
    show "I a0 (pending a0 @ p)"
    proof (cases "nwindow a = 0")
      case True
      from init_first [OF i True] assms show ?thesis
        using same_config_consts(1) [of a a0] by (simp add: I_def)
    next
      case False
      with i assms show ?thesis by (simp add: init_again I_def)
    qed
  next
    fix b q a1 p'
    assume b: "I b q" and cl: "channels_loop b 0 q = Inr (a1, p')"
    from b have nb: "\<not> bad_parameters b" by (simp add: I_def)
    have s1: "same_config b a1"
      using channels_loop_Inr [OF cl] valid_word_size [OF nb] valid_channels [OF nb]
      by (simp add: same_setup_config)
    show "length p' < length q \<and>
      (case report a1 of Inl (e, ae) \<Rightarrow> Q e ae | Inr a2 \<Rightarrow> I a2 p')"
    proof (cases "report a1")
      case (Inl x)
      obtain e ae where x: "x = (e, ae)" by (cases x)
      from report_Inl [OF Inl [unfolded x]] Inl x frame_consumed(3) [OF nb cl]
      show ?thesis by (simp add: Q_def)
    next
      case (Inr a2)
      from report_Inr [OF Inr] have "same_config a1 a2" by (simp add: same_setup_config)
      with s1 nb Inr frame_consumed(3) [OF nb cl] show ?thesis
        using same_config_consts(1) [of b a1] same_config_consts(1) [of a1 a2]
        by (simp add: I_def)
    qed
  next
    fix b q e ae
    assume "channels_loop b 0 q = Inl (e, ae)"
    from channels_loop_Inl [OF this] show "Q e ae" by (auto simp: Q_def)
  qed
  then show ?thesis
    by (auto simp: Q_def split: option.splits)
qed

section \<open>The report period and the window without wrap-around\<close>

lemma period_fits_product:
  assumes "period_fits a"
  shows "sint (SampleRate a * ObserveEvery a) = period_product a"
proof -
  have "SampleRate a * ObserveEvery a = word_of_int (period_product a)"
    by (simp add: period_product_def)
  moreover have "sint (word_of_int (period_product a) :: int64) = period_product a"
    using assms by (intro sint_word_of_int_64) (simp_all add: period_fits_def)
  ultimately show ?thesis by simp
qed

lemma reportPeriodSamples_exact:
  assumes "period_fits a"
  shows "sint (reportPeriodSamples a) = reportPeriodSamples_spec a"
  by (simp add: sint_reportPeriodSamples sint_quo_second period_fits_product [OF assms]
      reportPeriodSamples_spec_def)

lemma valid_config_spec:
  assumes "period_fits a"
  shows "valid_config a = spec_valid a"
proof -
  have "(0 < WordSize a) = (0 < unat (WordSize a))"
    by (simp add: word_less_nat_alt)
  moreover have "(WordSize a < 64) = (unat (WordSize a) < 64)"
    by (simp add: word_less_nat_alt)
  ultimately show ?thesis
    by (simp add: valid_config_def spec_valid_def word_sle_eq
        reportPeriodSamples_exact [OF assms])
qed

lemma first_call_validation:
  assumes "fresh a"
  shows "((\<exists>n a'. Write a p = Some (n, Some ErrBadParameters, a')) \<longleftrightarrow> \<not> valid_config a) \<and>
    (\<not> valid_config a \<longrightarrow> Write a p = Some (0, Some ErrBadParameters, a))"
proof -
  have nw: "nwindow a = 0" using assms by (simp add: fresh_def)
  have bad: "Write a p = Some (0, Some ErrBadParameters, a)" if "\<not> valid_config a"
    using that nw by (simp add: Write_def init_def bad_parameters_iff)
  have good: "\<not> (\<exists>n a'. Write a p = Some (n, Some ErrBadParameters, a'))" if "valid_config a"
    using Write_not_bad_parameters [of a p] that by (auto simp: bad_parameters_iff)
  from bad good show ?thesis by blast
qed

lemma windowSamples_exact:
  assumes "window_fits a"
  shows "sint (windowSamples a) = windowSamples_spec a"
proof -
  have "Channels a * SampleRate a * Window a = word_of_int (window_product a)"
    by (simp add: window_product_def)
  moreover have "sint (word_of_int (window_product a) :: int64) = window_product a"
    using assms by (intro sint_word_of_int_64) (simp_all add: window_fits_def)
  ultimately show ?thesis
    by (simp add: windowSamples_def sint_quo_second windowSamples_spec_def)
qed

lemma sign_convert_sint:
  assumes "\<not> bad_parameters a"
    and "read_word (bigshift a) (littleshift a) (unat (WordSize a)) 0 0 p = Some (raw, p')"
  shows "uint raw < 2 ^ unat (WordSize a) \<and>
     sint (sign_convert a raw) =
       (if Signed a then
          (if bit raw (unat (WordSize a) - 1) then 2 ^ unat (WordSize a) - uint raw
           else uint raw)
        else uint raw - 2 ^ (unat (WordSize a) - 1))"
proof -
  let ?w = "unat (WordSize a)"
  note w = valid_word_size [OF assms(1)]
  have raw: "uint raw < 2 ^ ?w"
    by (rule read_word_bound [OF assms(2)]) (use w in \<open>auto simp: bigshift_def littleshift_def\<close>)
  have w1: "unat (WordSize a - 1) = ?w - 1"
    using w(1) by (simp add: unat_sub word_le_nat_alt Suc_le_eq)
  have top: "(raw AND push_bit (?w - 1) 1 \<noteq> 0) = bit raw (?w - 1)"
    by (simp add: bit_iff_and_push_bit_not_eq_0)
  have topge: "bit raw (?w - 1) = (2 ^ (?w - 1) \<le> uint raw)"
    using w by (intro top_bit_iff raw) auto
  have p63: "(2::int) ^ ?w \<le> 2 ^ 63"
    using w(2) by (intro power_increasing) auto
  have pw: "(2::int) ^ ?w = 2 * 2 ^ (?w - 1)"
    using w(1) by (cases ?w) auto
  have pos: "sint raw = uint raw"
    using raw p63 by (intro sint_small) auto
  have neg: "sint (2 ^ ?w - raw) = 2 ^ ?w - uint raw" if "2 ^ (?w - 1) \<le> uint raw"
  proof -
    have "2 ^ ?w - raw = word_of_int (2 ^ ?w - uint raw)" by simp
    moreover have "sint (word_of_int (2 ^ ?w - uint raw) :: int64) = 2 ^ ?w - uint raw"
      using raw p63 pw that by (intro sint_word_of_int_64) auto
    ultimately show ?thesis by simp
  qed
  have uns: "sint (raw - 2 ^ (?w - 1)) = uint raw - 2 ^ (?w - 1)"
  proof -
    have "raw - 2 ^ (?w - 1) = word_of_int (uint raw - 2 ^ (?w - 1))" by simp
    moreover have "sint (word_of_int (uint raw - 2 ^ (?w - 1)) :: int64) = uint raw - 2 ^ (?w - 1)"
    proof (rule sint_word_of_int_64)
      have h: "0 < (2::int) ^ (?w - 1)" by simp
      have "0 \<le> uint raw" by simp
      then show "- (2 ^ 63) \<le> uint raw - 2 ^ (?w - 1)" using p63 pw h by linarith
      from h show "uint raw - 2 ^ (?w - 1) < 2 ^ 63" using raw p63 by linarith
    qed
    ultimately show ?thesis by simp
  qed
  show ?thesis
    using raw pos neg uns topge top
    by (simp add: sign_convert_def w1 xor_mask_neg [OF raw])
qed

section \<open>Peak\<close>

lemma decoded_sample_range:
  assumes "\<not> bad_parameters a"
    and "read_word (bigshift a) (littleshift a) (unat (WordSize a)) 0 0 p = Some (raw, p')"
  shows "- (2 ^ 62) \<le> sint (sign_convert a raw)" "sint (sign_convert a raw) \<le> 2 ^ 62"
proof -
  let ?w = "unat (WordSize a)"
  note w = valid_word_size [OF assms(1)]
  note v = sign_convert_sint [OF assms]
  define R where "R = uint raw"
  define H where "H = (2::int) ^ (?w - 1)"
  define P where "P = (2::int) ^ ?w"
  define S where "S = sint (sign_convert a raw)"
  have "?w - 1 \<le> 62" using w(2) by simp
  then have "(2::int) ^ (?w - 1) \<le> 2 ^ 62" by (intro power_increasing) auto
  then have p: "H \<le> 4611686018427387904" by (simp add: H_def)
  have h: "P = 2 * H" using w(1) by (cases ?w) (auto simp: P_def H_def)
  have r: "0 \<le> R" "R < P" using v by (simp_all add: R_def P_def)
  have hp: "0 < H" by (simp add: H_def)
  have top: "bit raw (?w - 1) = (H \<le> R)"
    unfolding H_def R_def using w r(2) by (intro top_bit_iff) (auto simp: R_def P_def)
  have S: "S = (if Signed a then (if H \<le> R then P - R else R) else R - H)"
    using v top by (simp add: S_def R_def H_def P_def)
  have "- 4611686018427387904 \<le> S \<and> S \<le> 4611686018427387904"
    using S p h r hp by (auto split: if_splits)
  then show "- (2 ^ 62) \<le> sint (sign_convert a raw)" "sint (sign_convert a raw) \<le> 2 ^ 62"
    by (simp_all add: S_def)
qed

lemma sint_uminus_64:
  fixes s :: int64
  assumes "- (2 ^ 63) < sint s"
  shows "sint (- s) = - sint s"
proof -
  have "- s = word_of_int (- sint s)" by simp
  moreover have "sint (word_of_int (- sint s) :: int64) = - sint s"
    using assms sint_lt [of s] by (intro sint_word_of_int_64) auto
  ultimately show ?thesis by simp
qed

lemma track_peak_max:
  assumes "0 \<le> sint (peak a)" "- (2 ^ 63) < sint s"
  shows "sint (peak (track_peak a s)) = max (sint (peak a)) \<bar>sint s\<bar>"
  using assms sint_uminus_64 [OF assms(2)]
  by (auto simp: track_peak_def word_sless_alt)

lemma add_sample_peak:
  assumes "add_sample a s = Inr a'"
  shows "peak a' = peak (track_peak a s)"
  using assms
  by (auto simp: add_sample_def roll_def track_peak_def Let_def
      split: sum.splits option.splits prod.splits if_splits)

lemma report_peak:
  assumes "report b = Inr b'"
  shows "if countdown b = 1 \<and> ObservePeak b
    then peak b' = 0 \<and> (\<exists>pre. observed b' = observed b @ pre @ [Peak (peak b)])
    else peak b' = peak b"
  using assms
  by (auto simp: report_def observe_rms_def observe_peak_def Let_def
      split: sum.splits option.splits if_splits)

section \<open>Invariants of streams\<close>

lemma writes_rule:
  assumes "K a ps"
    and w: "\<And>a p ps. K a (p # ps) \<Longrightarrow>
      \<exists>n e a'. Write a p = Some (n, e, a') \<and> (case e of Some er \<Rightarrow> R er a' | None \<Rightarrow> K a' ps)"
    and fin: "\<And>a. K a [] \<Longrightarrow> F a"
  shows "\<exists>e a'. writes a ps = Some (e, a') \<and> (case e of Some er \<Rightarrow> R er a' | None \<Rightarrow> F a')"
  using assms(1)
proof (induction ps arbitrary: a)
  case Nil
  then show ?case by (simp add: fin)
next
  case (Cons p ps)
  from w [OF Cons.prems] obtain n e a' where
    W: "Write a p = Some (n, e, a')" "case e of Some er \<Rightarrow> R er a' | None \<Rightarrow> K a' ps"
    by blast
  show ?case
  proof (cases e)
    case None
    with W Cons.IH [of a'] show ?thesis by simp
  next
    case (Some er)
    with W show ?thesis by simp
  qed
qed

lemma report_idle:
  assumes "countdown a - 1 \<noteq> 0"
  shows "report a = Inr (a\<lparr>countdown := countdown a - 1\<rparr>)"
  using assms by (simp add: report_def Let_def)



lemma same_config_refl [simp]: "same_config a a"
  by (simp add: same_config_def)

lemma same_config_trans: "same_config a b \<Longrightarrow> same_config b c \<Longrightarrow> same_config a c"
  by (simp add: same_config_def)

lemma same_config_update [simp]:
  "same_config a (b\<lparr>countdown := x\<rparr>) = same_config a b"
  "same_config a (b\<lparr>pending := y\<rparr>) = same_config a b"
  by (simp_all add: same_config_def)

lemma bad_parameters_update [simp]:
  "bad_parameters (b\<lparr>countdown := x\<rparr>) = bad_parameters b"
  "bad_parameters (b\<lparr>pending := y\<rparr>) = bad_parameters b"
  by (simp_all add: bad_parameters_def)




lemma counted_down_mono:
  assumes "counted_down b m" "m' \<le> m"
  shows "counted_down b m'"
  using assms by (auto simp: counted_down_def)


lemma roll_ok:
  assumes "ring_ok a"
  shows "\<exists>a'. roll a q = Inr a' \<and> ring_ok a' \<and> ring_filled a'"
proof (cases "squares a")
  case None
  with assms show ?thesis by (simp add: roll_def ring_ok_def ring_filled_def)
next
  case (Some sq)
  with assms have r: "length sq \<le> cap_squares a" "0 < cap_squares a" "- 1 \<le> next_a a"
    "cap_squares a < 2 ^ 63"
    "next_a a + 1 = int (length sq) \<or> (length sq = cap_squares a \<and> next_a a < int (cap_squares a))"
    by (simp_all add: ring_ok_def)
  show ?thesis
  proof (cases "next_a a + 1 = int (cap_squares a)")
    case True
    with r have "length sq = cap_squares a" by auto
    with True r Some show ?thesis
      by (auto simp add: roll_def advance_def Let_def ring_ok_def ring_filled_def)
  next
    case nc: False
    show ?thesis
    proof (cases "next_a a + 1 = int (length sq)")
      case True
      with nc r Some show ?thesis
        by (auto simp add: roll_def advance_def Let_def ring_ok_def ring_filled_def)
    next
      case False
      with nc r Some show ?thesis
        by (auto simp add: roll_def advance_def Let_def ring_ok_def ring_filled_def)
    qed
  qed
qed

lemma ring_update [simp]:
  "ring_ok (a\<lparr>sum_a := x\<rparr>) = ring_ok a" "ring_ok (a\<lparr>peak := y\<rparr>) = ring_ok a"
  "ring_ok (a\<lparr>countdown := z\<rparr>) = ring_ok a" "ring_ok (a\<lparr>observed := u\<rparr>) = ring_ok a"
  "ring_ok (a\<lparr>pending := v\<rparr>) = ring_ok a"
  "ring_filled (a\<lparr>sum_a := x\<rparr>) = ring_filled a" "ring_filled (a\<lparr>peak := y\<rparr>) = ring_filled a"
  "ring_filled (a\<lparr>countdown := z\<rparr>) = ring_filled a"
  "ring_filled (a\<lparr>observed := u\<rparr>) = ring_filled a"
  "ring_filled (a\<lparr>pending := v\<rparr>) = ring_filled a"
  by (simp_all add: ring_ok_def ring_filled_def split: option.splits)

lemma add_sample_ok:
  assumes "ring_ok a"
  shows "\<exists>a'. add_sample a s = Inr a' \<and> ring_ok a' \<and> ring_filled a'"
proof -
  have "ring_ok (a\<lparr>sum_a := sum_a a + s * s\<rparr>)" using assms by simp
  from roll_ok [OF this, of "s * s"] show ?thesis
    by (auto simp: add_sample_def Let_def track_peak_def)
qed

lemma channels_loop_ring:
  assumes "ring_ok a"
  shows "case channels_loop a c p of
      Inl (e, ae) \<Rightarrow> e = PanicIndexBytes
    | Inr (a1, p') \<Rightarrow> ring_ok a1 \<and> (ring_filled a \<or> c < sint (Channels a) \<longrightarrow> ring_filled a1)"
  using assms
proof (induction a c p rule: channels_loop.induct)
  case (1 a c p)
  show ?case
  proof (cases "c < sint (Channels a)")
    case False
    with "1.prems" show ?thesis by (subst channels_loop.simps) simp
  next
    case True
    show ?thesis
    proof (cases "read_word (bigshift a) (littleshift a) (unat (WordSize a)) 0 0 p")
      case None
      with True show ?thesis by (subst channels_loop.simps) simp
    next
      case (Some sq)
      obtain s q where sq: "sq = (s, q)" by (cases sq)
      from add_sample_ok [OF "1.prems", of "sign_convert a s"] obtain a' where
        a': "add_sample a (sign_convert a s) = Inr a'" "ring_ok a'" "ring_filled a'"
        by blast
      define r where "r = channels_loop a' (c + 1) q"
      have st: "channels_loop a c p = r"
        unfolding r_def using True Some sq a'(1)
        by (subst channels_loop.simps) (simp del: channels_loop.simps)
      from "1.IH" [OF True Some [unfolded sq] refl a'(1) a'(2)] a'(3)
      have "case r of
          Inl (e, ae) \<Rightarrow> e = PanicIndexBytes
        | Inr (a1, p') \<Rightarrow> ring_ok a1 \<and> ring_filled a1"
        unfolding r_def by (auto split: sum.splits simp del: channels_loop.simps)
      then show ?thesis
        unfolding st by (auto split: sum.splits)
    qed
  qed
qed

lemma report_ring:
  assumes "report a = Inr a'"
  shows "ring_ok a' = ring_ok a" "ring_filled a' = ring_filled a"
  using report_Inr [OF assms]
  by (simp_all add: ring_ok_def ring_filled_def same_setup_def split: option.splits)

lemma read_word_enough:
  assumes "8 dvd w" "8 dvd b" "b \<le> w" "(w - b) div 8 \<le> length p"
  shows "\<exists>raw. read_word bs ls w b s p = Some (raw, drop ((w - b) div 8) p)"
  using assms
proof (induction bs ls w b s p rule: read_word.induct)
  case (1 bs ls w b s p)
  show ?case
  proof (cases "b < w")
    case False
    with "1.prems" show ?thesis by simp
  next
    case True
    have le: "b + 8 \<le> w"
      using True "1.prems"(1,2) by (auto elim!: dvdE)
    have d: "(w - b) div 8 = Suc ((w - (b + 8)) div 8)"
      using le "1.prems"(1,2) by (auto elim!: dvdE)
    with "1.prems"(4) obtain x q where p: "p = x # q" by (cases p) auto
    have "(w - (b + 8)) div 8 \<le> length q" using "1.prems"(4) d p by simp
    from "1.IH" [OF True p "1.prems"(1) _ le this] "1.prems"(2)
    obtain raw where "read_word bs ls w (b + 8)
        (push_bit (bs * 8) s OR push_bit (ls * b) (ucast x)) q =
        Some (raw, drop ((w - (b + 8)) div 8) q)"
      by auto
    then show ?thesis
      using True p d by (subst read_word.simps) (simp del: read_word.simps)
  qed
qed

lemma channels_loop_enough:
  assumes "ring_ok a" "8 dvd unat (WordSize a)" "c \<le> sint (Channels a)"
    "nat (sint (Channels a) - c) * word_bytes a \<le> length p"
  shows "\<exists>a1 p'. channels_loop a c p = Inr (a1, p')"
  using assms
proof (induction a c p rule: channels_loop.induct)
  case (1 a c p)
  show ?case
  proof (cases "c < sint (Channels a)")
    case False
    then show ?thesis by (subst channels_loop.simps) simp
  next
    case True
    have n: "nat (sint (Channels a) - c) = Suc (nat (sint (Channels a) - (c + 1)))"
      using True by simp
    have wb: "word_bytes a \<le> length p"
      "nat (sint (Channels a) - (c + 1)) * word_bytes a \<le> length p - word_bytes a"
      using "1.prems"(4) by (simp_all add: n)
    from read_word_enough [of "unat (WordSize a)" 0 p "bigshift a" "littleshift a" 0]
      "1.prems"(2) wb(1)
    obtain raw where rw: "read_word (bigshift a) (littleshift a) (unat (WordSize a)) 0 0 p =
        Some (raw, drop (word_bytes a) p)"
      by (auto simp: word_bytes_def)
    from add_sample_ok [OF "1.prems"(1), of "sign_convert a raw"] obtain a' where
      a': "add_sample a (sign_convert a raw) = Inr a'" "ring_ok a'"
      by blast
    note st = add_sample_Inr [OF a'(1)]
    have ws: "WordSize a' = WordSize a" "Channels a' = Channels a"
      using st by (simp_all add: same_setup_def)
    have wb': "word_bytes a' = word_bytes a" using ws by (simp add: word_bytes_def)
    from "1.IH" [OF True rw refl a'(1) a'(2)] "1.prems"(2) True wb(2)
    obtain a1 p' where "channels_loop a' (c + 1) (drop (word_bytes a) p) = Inr (a1, p')"
      by (auto simp: ws wb')
    then show ?thesis
      using True rw a'(1)
      by (subst channels_loop.simps) (simp del: channels_loop.simps)
  qed
qed

lemma frame_bytes_exact:
  assumes "\<not> bad_parameters a" "no_wrap a"
  shows "frame_bytes a = int (frame_size a)"
proof -
  note w = valid_word_size [OF assms(1)]
  define C where "C = sint (Channels a)"
  define W where "W = unat (WordSize a)"
  have C: "1 \<le> C" using valid_channels [OF assms(1)] by (simp add: C_def)
  have lt: "C * int W < 2 ^ 63" using assms(2) by (simp add: no_wrap_def C_def W_def)
  have ge: "0 \<le> C * int W" using C by simp
  have "Channels a * WordSize a = word_of_int (C * int W)"
    by (simp add: C_def W_def)
  moreover have "sint (word_of_int (C * int W) :: int64) = C * int W"
    using lt ge by (intro sint_word_of_int_64) auto
  ultimately have "frame_bytes a = (C * int W) sdiv 8"
    by (simp add: frame_bytes_def)
  also have "\<dots> = (C * int W) div 8"
    using ge by (simp add: signed_divide_int_def sgn_if)
  also have "\<dots> = C * (int W div 8)"
  proof -
    from w(3) obtain k where k: "W = 8 * k" by (auto simp: W_def elim: dvdE)
    then show ?thesis by simp
  qed
  also have "\<dots> = int (nat C * (W div 8))"
    using C by (simp add: zdiv_int)
  finally show ?thesis by (simp add: frame_size_def C_def W_def)
qed

lemma report_Inl_cause:
  assumes "report a = Inl (e, ae)" "ring_ok a" "ring_filled a"
  shows "e = PanicDivide \<and> squares a = None \<and> nwindow a = 0"
proof -
  have "(word_of_nat (length sq) :: int64) \<noteq> 0" if "squares a = Some sq" for sq
  proof -
    from that assms(2,3) have l: "0 < length sq" "length sq < 2 ^ 63"
      by (auto simp: ring_ok_def ring_filled_def)
    then have "length sq < 2 ^ 64" by (simp add: less_trans [of _ "2 ^ 63"])
    then have "unat (word_of_nat (length sq) :: int64) = length sq"
      by (simp add: unat_of_nat take_bit_nat_eq_self)
    with l(1) show ?thesis by (metis unat_0 less_numeral_extra(3))
  qed
  with assms(1) show ?thesis
    by (auto simp: report_def observe_rms_def Let_def split: if_splits option.splits sum.splits)
qed

lemma panic_cause_config: "same_config a b \<Longrightarrow> panic_cause b = panic_cause a"
  by (auto simp: panic_cause_def same_config_def no_wrap_def windowSamples_def fun_eq_iff)

lemma ring_Write:
  assumes K: "\<not> bad_parameters a" "Window a = ObserveEvery a \<or> 1 \<le>s windowSamples a"
    "nwindow a \<noteq> 0 \<longrightarrow> nwindow a = windowSamples a \<and> ring_ok a"
    "Window a = ObserveEvery a \<longrightarrow> squares a = None"
  shows "\<exists>n e a'. Write a p = Some (n, e, a') \<and>
    (case e of
       Some er \<Rightarrow> panic_cause a er
     | None \<Rightarrow> n = length p \<and> \<not> bad_parameters a' \<and> same_config a a' \<and>
         nwindow a' = windowSamples a' \<and> ring_ok a' \<and>
         (Window a' = ObserveEvery a' \<longrightarrow> squares a' = None))"
proof -
  define I where "I = (\<lambda>(b :: Analyzer) (q :: byte list).
    \<not> bad_parameters b \<and> same_config a b \<and> nwindow b = windowSamples a \<and> ring_ok b \<and>
    (Window a = ObserveEvery a \<longrightarrow> squares b = None))"
  define Q where "Q = (\<lambda>(e :: error) (b :: Analyzer). panic_cause a e)"
  have "\<exists>n e a'. Write a p = Some (n, e, a') \<and>
    (case e of
       Some er \<Rightarrow> n = 0 \<and> Q er a'
     | None \<Rightarrow> n = length p \<and>
         (\<exists>a1 p2. a' = a1\<lparr>pending := p2\<rparr> \<and> I a1 p2 \<and> \<not> frame_bytes a1 \<le> int (length p2)))"
  proof (rule Write_rule)
    fix e ae assume "init a = Inl (e, ae)"
    from init_Inl [OF this] K(1,2) show "Q e ae"
      by (auto simp: word_sless_alt word_sle_eq)
  next
    fix a0 assume i: "init a = Inr a0"
    show "I a0 (pending a0 @ p)"
    proof (cases "nwindow a = 0")
      case True
      note f = init_first [OF i True]
      have "ring_ok a0"
      proof (cases "Window a = ObserveEvery a")
        case True
        with f K(4) show ?thesis by (simp add: ring_ok_def)
      next
        case False
        with K(2) have "1 \<le> sint (windowSamples a)" by (simp add: word_sle_eq)
        moreover have "sint (windowSamples a) < 2 ^ 63" using sint_lt [of "windowSamples a"] by simp
        ultimately show ?thesis using f False by (simp add: ring_ok_def nat_less_iff)
      qed
      with f K show ?thesis
        using same_config_consts(1) [of a a0] by (simp add: I_def)
    next
      case False
      with i K show ?thesis by (simp add: init_again I_def)
    qed
  next
    fix b q a1 p'
    assume b: "I b q" and cl: "channels_loop b 0 q = Inr (a1, p')"
    from b have nb: "\<not> bad_parameters b" and sc: "same_config a b" and rb: "ring_ok b"
      by (simp_all add: I_def)
    note w = valid_word_size [OF nb]
    note e = channels_loop_Inr [OF cl w(3)]
    note fc = frame_consumed [OF nb cl]
    have s1: "same_config b a1" using e valid_channels [OF nb] by (simp add: same_setup_config)
    have nb1: "\<not> bad_parameters a1" using nb same_config_consts(1) [OF s1] by simp
    have sc1: "same_config a a1" using sc s1 by (rule same_config_trans)
    have nw: "nwindow a1 = windowSamples a"
      using b e valid_channels [OF nb] by (simp add: I_def same_setup_def)
    have r1: "ring_ok a1" "ring_filled a1"
      using channels_loop_ring [OF rb, of 0 q] cl valid_channels [OF nb] by simp_all
    have md: "Window a = ObserveEvery a \<longrightarrow> squares a1 = None"
      using b e valid_channels [OF nb] by (simp add: I_def same_setup_def)
    show "length p' < length q \<and>
      (case report a1 of Inl (e, ae) \<Rightarrow> Q e ae | Inr a2 \<Rightarrow> I a2 p')"
    proof (cases "report a1")
      case (Inl x)
      obtain e ae where x: "x = (e, ae)" by (cases x)
      from report_Inl_cause [OF Inl [unfolded x] r1] nw Inl x fc(3) show ?thesis
        by (simp add: Q_def panic_cause_def)
    next
      case (Inr a2)
      note rr = report_Inr [OF Inr]
      have "same_config a a2"
        using sc1 rr by (auto intro: same_config_trans same_setup_config)
      moreover have "\<not> bad_parameters a2"
        using nb1 same_config_consts(1) [of a1 a2] rr by (simp add: same_setup_config)
      moreover have "nwindow a2 = windowSamples a" using nw rr by (simp add: same_setup_def)
      moreover have "ring_ok a2" using report_ring [OF Inr] r1 by simp
      moreover have "Window a = ObserveEvery a \<longrightarrow> squares a2 = None" using md rr by simp
      ultimately show ?thesis using Inr fc(3) by (simp add: I_def)
    qed
  next
    fix b q e ae
    assume b: "I b q" and fb: "frame_bytes b \<le> int (length q)"
      and cl: "channels_loop b 0 q = Inl (e, ae)"
    from b have nb: "\<not> bad_parameters b" and sc: "same_config a b" and rb: "ring_ok b"
      by (simp_all add: I_def)
    from channels_loop_ring [OF rb, of 0 q] cl have e: "e = PanicIndexBytes" by simp
    have "\<not> no_wrap b"
    proof
      assume nw: "no_wrap b"
      from frame_bytes_exact [OF nb nw] fb have "frame_size b \<le> length q" by simp
      then have "nat (sint (Channels b) - 0) * word_bytes b \<le> length q"
        by (simp add: frame_size_def word_bytes_def)
      from channels_loop_enough [OF rb valid_word_size(3) [OF nb] _ this]
        valid_channels [OF nb] cl
      show False by auto
    qed
    then have "\<not> no_wrap a" using sc by (simp add: no_wrap_def same_config_def)
    with e show "Q e ae" by (simp add: Q_def panic_cause_def)
  qed
  then obtain n e a' where W: "Write a p = Some (n, e, a')"
    "case e of
       Some er \<Rightarrow> n = 0 \<and> Q er a'
     | None \<Rightarrow> n = length p \<and>
         (\<exists>a1 p2. a' = a1\<lparr>pending := p2\<rparr> \<and> I a1 p2 \<and> \<not> frame_bytes a1 \<le> int (length p2))"
    by blast
  show ?thesis
  proof (cases e)
    case (Some er)
    with W show ?thesis by (simp add: Q_def)
  next
    case None
    with W obtain a1 p2 where a': "a' = a1\<lparr>pending := p2\<rparr>" and I: "I a1 p2" by auto
    from I have sc: "same_config a a'" by (simp add: a' I_def)
    from I a' W None sc show ?thesis
      using same_config_consts(5) [OF sc] by (simp add: I_def same_config_def)
  qed
qed

section \<open>Splitting a write\<close>

lemma advance_pending: "advance (with_pending x a) sq = advance a sq"
  by (simp add: advance_def with_pending_def)

lemma roll_pending:
  "roll (with_pending x a) q =
     (case roll a q of Inl (e, ae) \<Rightarrow> Inl (e, with_pending x ae)
      | Inr a' \<Rightarrow> Inr (with_pending x a'))"
proof (cases "squares a")
  case None
  then show ?thesis by (simp add: roll_def with_pending_def)
next
  case (Some sq)
  obtain nx sq1 where adv: "advance a sq = (nx, sq1)" by (cases "advance a sq")
  have "squares (with_pending x a) = Some sq" using Some by (simp add: with_pending_def)
  then show ?thesis
    using Some adv advance_pending [of x a sq]
    by (simp add: roll_def Let_def) (simp add: with_pending_def)
qed

lemma track_peak_pending: "track_peak (with_pending x a) s = with_pending x (track_peak a s)"
  by (simp add: track_peak_def with_pending_def)

lemma add_sample_pending:
  "add_sample (with_pending x a) s =
     (case add_sample a s of Inl (e, ae) \<Rightarrow> Inl (e, with_pending x ae)
      | Inr a' \<Rightarrow> Inr (with_pending x a'))"
proof -
  have "with_pending x a\<lparr>sum_a := sum_a (with_pending x a) + s * s\<rparr> =
      with_pending x (a\<lparr>sum_a := sum_a a + s * s\<rparr>)"
    by (simp add: with_pending_def)
  then show ?thesis
    by (simp add: add_sample_def Let_def roll_pending track_peak_pending split: sum.splits)
qed

lemma observe_rms_pending:
  "observe_rms (with_pending x a) n =
     (case observe_rms a n of Inl (e, ae) \<Rightarrow> Inl (e, with_pending x ae)
      | Inr a' \<Rightarrow> Inr (with_pending x a'))"
  by (simp add: observe_rms_def with_pending_def)

lemma observe_peak_pending: "observe_peak (with_pending x a) = with_pending x (observe_peak a)"
  by (simp add: observe_peak_def with_pending_def)

lemma report_pending:
  "report (with_pending x a) =
     (case report a of Inl (e, ae) \<Rightarrow> Inl (e, with_pending x ae)
      | Inr a' \<Rightarrow> Inr (with_pending x a'))"
proof -
  define a1 where "a1 = a\<lparr>countdown := countdown a - 1\<rparr>"
  define n where "n = (case squares a1 of None \<Rightarrow> nwindow a1
    | Some sq \<Rightarrow> word_of_nat (length sq))"
  have c: "with_pending x a\<lparr>countdown := countdown (with_pending x a) - 1\<rparr> =
      with_pending x a1"
    by (simp add: with_pending_def a1_def)
  have f: "countdown (with_pending x b) = countdown b" "squares (with_pending x b) = squares b"
    "nwindow (with_pending x b) = nwindow b" "nobserve (with_pending x b) = nobserve b"
    "with_pending x b\<lparr>sum_a := 0\<rparr> = with_pending x (b\<lparr>sum_a := 0\<rparr>)"
    "with_pending x b\<lparr>countdown := v\<rparr> = with_pending x (b\<lparr>countdown := v\<rparr>)" for b v
    by (simp_all add: with_pending_def)
  have L: "report (with_pending x a) =
    (if countdown a1 = 0 then
       (case observe_rms (with_pending x a1) n of
          Inl e \<Rightarrow> Inl e
        | Inr a2 \<Rightarrow>
            (let a3 = observe_peak a2;
                 a4 = (if squares a3 = None then a3\<lparr>sum_a := 0\<rparr> else a3)
             in Inr (a4\<lparr>countdown := nobserve a4\<rparr>)))
     else Inr (with_pending x a1))"
    unfolding report_def Let_def c by (cases "squares a1") (simp_all add: f n_def)
  have R: "report a =
    (if countdown a1 = 0 then
       (case observe_rms a1 n of
          Inl e \<Rightarrow> Inl e
        | Inr a2 \<Rightarrow>
            (let a3 = observe_peak a2;
                 a4 = (if squares a3 = None then a3\<lparr>sum_a := 0\<rparr> else a3)
             in Inr (a4\<lparr>countdown := nobserve a4\<rparr>)))
     else Inr a1)"
    unfolding report_def Let_def a1_def [symmetric] by (cases "squares a1") (simp_all add: n_def)
  show ?thesis
  proof (cases "countdown a1 = 0")
    case False
    then show ?thesis by (simp add: L R)
  next
    case True
    show ?thesis
    proof (cases "observe_rms a1 n")
      case (Inl y)
      obtain e ae where "y = (e, ae)" by (cases y)
      with Inl True show ?thesis by (simp add: L R observe_rms_pending)
    next
      case (Inr a2)
      with True show ?thesis
        by (simp add: L R observe_rms_pending observe_peak_pending f Let_def)
    qed
  qed
qed

lemma with_pending_config [simp]:
  "bigshift (with_pending x a) = bigshift a" "littleshift (with_pending x a) = littleshift a"
  "WordSize (with_pending x a) = WordSize a" "Channels (with_pending x a) = Channels a"
  "sign_convert (with_pending x a) = sign_convert a"
  "frame_bytes (with_pending x a) = frame_bytes a"
  "bad_parameters (with_pending x a) = bad_parameters a"
  by (simp_all add: with_pending_def bigshift_def littleshift_def sign_convert_def fun_eq_iff
      frame_bytes_def)

lemma channels_loop_pending:
  "channels_loop (with_pending x a) c p =
     (case channels_loop a c p of Inl (e, ae) \<Rightarrow> Inl (e, with_pending x ae)
      | Inr (a1, p') \<Rightarrow> Inr (with_pending x a1, p'))"
proof (induction a c p rule: channels_loop.induct)
  case (1 a c p)
  show ?case
  proof (cases "c < sint (Channels a)")
    case False
    then show ?thesis
      by (subst channels_loop.simps, subst (2) channels_loop.simps) simp
  next
    case True
    show ?thesis
    proof (cases "read_word (bigshift a) (littleshift a) (unat (WordSize a)) 0 0 p")
      case None
      with True show ?thesis
        by (subst channels_loop.simps, subst (2) channels_loop.simps) simp
    next
      case (Some sq)
      obtain s q where sq: "sq = (s, q)" by (cases sq)
      show ?thesis
      proof (cases "add_sample a (sign_convert a s)")
        case (Inl y)
        obtain e ae where "y = (e, ae)" by (cases y)
        with Inl True Some sq show ?thesis
          by (subst channels_loop.simps, subst (2) channels_loop.simps)
            (simp add: add_sample_pending del: channels_loop.simps)
      next
        case (Inr a')
        from "1.IH" [OF True Some [unfolded sq] refl Inr] Inr True Some sq show ?thesis
          by (subst channels_loop.simps, subst (2) channels_loop.simps)
            (simp add: add_sample_pending del: channels_loop.simps)
      qed
    qed
  qed
qed

lemma frames_append:
  assumes "frames a p = Some (Inr (a', p'))"
  shows "frames a (p @ q) = frames a' (p' @ q)"
proof -
  define P where "P = (\<lambda>a p (r :: (Analyzer \<times> byte list) result). \<forall>a' p'. r = Inr (a', p') \<longrightarrow>
    frames a (p @ q) = frames a' (p' @ q))"
  have "P a p (Inr (a', p'))"
  proof (rule frames.raw_induct [where P = P, OF _ assms], goal_cases)
    case (1 f a p r)
    show ?case
    proof (cases "frame_bytes a \<le> int (length p)")
      case False
      with 1(2) show ?thesis by (auto simp: P_def simp del: channels_loop.simps)
    next
      case True
      show ?thesis
        unfolding P_def
      proof (intro allI impI)
        fix a' p' assume r: "r = Inr (a', p')"
        from 1(2) True r obtain a1 p1 where cl: "channels_loop a 0 p = Inr (a1, p1)"
          by (auto split: sum.splits simp del: channels_loop.simps)
        from 1(2) True r cl obtain a2 where rp: "report a1 = Inr a2"
          by (auto split: sum.splits simp del: channels_loop.simps)
        from 1(2) True r cl rp have f: "f a2 p1 = Some (Inr (a', p'))"
          by (simp del: channels_loop.simps)
        from 1(1) [OF f] have "frames a2 (p1 @ q) = frames a' (p' @ q)" by (simp add: P_def)
        moreover have "frames a (p @ q) = frames a2 (p1 @ q)"
          using True channels_loop_append [OF cl, of q] rp
          by (subst frames.simps) (simp del: channels_loop.simps)
        ultimately show "frames a (p @ q) = frames a' (p' @ q)" by simp
      qed
    qed
  qed
  then show ?thesis by (simp add: P_def)
qed

lemma frames_pending:
  assumes "\<not> bad_parameters a"
  shows "frames (with_pending x a) q =
     (case frames a q of
        None \<Rightarrow> None
      | Some (Inl (e, ae)) \<Rightarrow> Some (Inl (e, with_pending x ae))
      | Some (Inr (a', p')) \<Rightarrow> Some (Inr (with_pending x a', p')))"
  using assms
proof (induction "length q" arbitrary: a q rule: less_induct)
  case less
  show ?case
  proof (cases "frame_bytes a \<le> int (length q)")
    case False
    then show ?thesis
      by (subst frames.simps, subst (2) frames.simps) (simp del: channels_loop.simps)
  next
    case True
    show ?thesis
    proof (cases "channels_loop a 0 q")
      case (Inl y)
      obtain e ae where "y = (e, ae)" by (cases y)
      with Inl True show ?thesis
        by (subst frames.simps, subst (2) frames.simps) (simp add: channels_loop_pending del: channels_loop.simps)
    next
      case (Inr y)
      obtain a1 p' where y: "y = (a1, p')" by (cases y)
      note cl = Inr [unfolded y]
      note fc = frame_consumed [OF less.prems cl]
      have s1: "same_config a a1"
        using channels_loop_Inr [OF cl valid_word_size(3) [OF less.prems]]
          valid_channels [OF less.prems]
        by (simp add: same_setup_config)
      show ?thesis
      proof (cases "report a1")
        case (Inl z)
        obtain e ae where "z = (e, ae)" by (cases z)
        with Inl cl True show ?thesis
          by (subst frames.simps, subst (2) frames.simps)
            (simp add: channels_loop_pending report_pending del: channels_loop.simps)
      next
        case r: (Inr a2)
        have "same_config a1 a2" using report_Inr [OF r] by (simp add: same_setup_config)
        then have nb2: "\<not> bad_parameters a2"
          using less.prems same_config_consts(1) [OF s1] same_config_consts(1) [of a1 a2]
          by simp
        from less.hyps [OF fc(3) nb2] r cl True show ?thesis
          by (subst frames.simps, subst (2) frames.simps)
            (simp add: channels_loop_pending report_pending del: channels_loop.simps)
      qed
    qed
  qed
qed

lemma Write_unfold:
  assumes "init a = Inr a0"
  shows "Write a p =
    (case frames a0 (pending a0 @ p) of
       None \<Rightarrow> None
     | Some (Inl (e, a')) \<Rightarrow> Some (0, Some e, a')
     | Some (Inr (a1, p2)) \<Rightarrow> Some (length p, None, with_pending p2 a1))"
proof -
  have "(if 0 < length (pending a0) then pending a0 @ p else p) = pending a0 @ p" by simp
  then show ?thesis
    using assms by (simp only: Write_def Let_def with_pending_def sum.case)
qed

lemma ready_Write:
  assumes "ready a"
  shows "\<exists>a1 r. frames a (pending a @ p) = Some (Inr (a1, r)) \<and>
    Write a p = Some (length p, None, with_pending r a1) \<and> ready (with_pending r a1)"
proof -
  from assms have k: "\<not> bad_parameters a" "Window a = ObserveEvery a \<or> 1 \<le>s windowSamples a"
    "nwindow a \<noteq> 0 \<longrightarrow> nwindow a = windowSamples a \<and> ring_ok a"
    "Window a = ObserveEvery a \<longrightarrow> squares a = None"
    by (auto simp: ready_def word_sle_eq word_sless_alt split: if_splits)
  from assms have nz: "nwindow a \<noteq> 0" by (simp add: ready_def)
  from ring_Write [OF k, of p] obtain n e a' where
    W: "Write a p = Some (n, e, a')"
      "case e of
         Some er \<Rightarrow> panic_cause a er
       | None \<Rightarrow> n = length p \<and> \<not> bad_parameters a' \<and> same_config a a' \<and>
           nwindow a' = windowSamples a' \<and> ring_ok a' \<and>
           (Window a' = ObserveEvery a' \<longrightarrow> squares a' = None)"
    by blast
  have e: "e = None"
    using W(2) assms by (cases e) (auto simp: panic_cause_def ready_def)
  with W have g: "n = length p" "\<not> bad_parameters a'" "same_config a a'"
    "nwindow a' = windowSamples a'" "ring_ok a'"
    "Window a' = ObserveEvery a' \<longrightarrow> squares a' = None"
    by simp_all
  have r': "ready a'"
    using g assms same_config_consts(5) [OF g(3)]
    by (auto simp: ready_def no_wrap_def same_config_def)
  from W(1) e g(1) obtain a1 r where
    "frames a (pending a @ p) = Some (Inr (a1, r))" "a' = with_pending r a1"
    by (auto simp: Write_unfold [OF init_again [OF nz]] split: option.splits sum.splits)
  with W(1) e g(1) r' show ?thesis by auto
qed

lemma with_pending_twice [simp]: "with_pending x (with_pending y a) = with_pending x a"
  by (simp add: with_pending_def)

lemma pending_with_pending [simp]: "pending (with_pending x a) = x"
  by (simp add: with_pending_def)

lemma ready_split:
  assumes "ready a"
  shows "\<exists>a'. writes a [b1, b2] = Some (None, a') \<and> writes a [b1 @ b2] = Some (None, a') \<and>
    ready a'"
proof -
  from ready_Write [OF assms, of b1] obtain a1 r1 where
    1: "frames a (pending a @ b1) = Some (Inr (a1, r1))"
      "Write a b1 = Some (length b1, None, with_pending r1 a1)" "ready (with_pending r1 a1)"
    by blast
  from ready_Write [OF 1(3), of b2] obtain x r2 where
    2: "frames (with_pending r1 a1) (r1 @ b2) = Some (Inr (x, r2))"
      "Write (with_pending r1 a1) b2 = Some (length b2, None, with_pending r2 x)"
      "ready (with_pending r2 x)"
    by auto
  have nb1: "\<not> bad_parameters a1" using 1(3) by (simp add: ready_def)
  from 2(1) frames_pending [OF nb1, of r1 "r1 @ b2"] obtain a2 where
    3: "frames a1 (r1 @ b2) = Some (Inr (a2, r2))" "x = with_pending r1 a2"
    by (auto split: option.splits sum.splits)
  from ready_Write [OF assms, of "b1 @ b2"] obtain a3 r3 where
    4: "frames a (pending a @ b1 @ b2) = Some (Inr (a3, r3))"
      "Write a (b1 @ b2) = Some (length (b1 @ b2), None, with_pending r3 a3)"
    by blast
  have "frames a ((pending a @ b1) @ b2) = frames a1 (r1 @ b2)"
    using 1(1) by (rule frames_append)
  with 3(1) 4(1) have "a3 = a2" "r3 = r2" by simp_all
  with 1(2) 2(2,3) 3(2) 4(2) show ?thesis by simp
qed

lemma writes_append:
  "writes a (ps @ qs) =
     (case writes a ps of
        None \<Rightarrow> None
      | Some (Some e, a') \<Rightarrow> Some (Some e, a')
      | Some (None, a') \<Rightarrow> writes a' qs)"
proof (induction ps arbitrary: a)
  case Nil
  show ?case by simp
next
  case (Cons p ps)
  show ?case
  proof (cases "Write a p")
    case None
    then show ?thesis by simp
  next
    case (Some t)
    obtain n e a' where t: "t = (n, e, a')" by (cases t)
    show ?thesis
      using Some t Cons.IH [of a'] by (cases e) simp_all
  qed
qed

lemma first_init:
  assumes "fresh a" "valid_config a" "no_wrap a" "windowSamples a \<noteq> 0"
  shows "(\<exists>ae. init a = Inl (PanicMakeSlice, ae)) \<or>
    (\<exists>a0. init a = Inr a0 \<and> ready a0 \<and> pending a0 = [] \<and> same_config a a0)"
proof (cases "init a")
  case (Inl x)
  obtain e ae where x: "x = (e, ae)" by (cases x)
  from init_Inl [OF Inl [unfolded x]] assms(2) Inl x show ?thesis
    by (auto simp: bad_parameters_iff)
next
  case (Inr a0)
  have nw: "nwindow a = 0" and sn: "squares a = None" and pe: "pending a = []"
    using assms(1) by (simp_all add: fresh_def)
  note f = init_first [OF Inr nw]
  have sc: "same_config a a0" using f by simp
  have "ring_ok a0"
  proof (cases "Window a = ObserveEvery a")
    case True
    with f sn show ?thesis by (simp add: ring_ok_def)
  next
    case False
    with f have "\<not> windowSamples a <s 0" by simp
    with assms(4) have "0 < sint (windowSamples a)"
      by (simp add: word_sless_alt) (metis less_le signed_eq_0_iff not_less)
    moreover have "sint (windowSamples a) < 2 ^ 63" using sint_lt [of "windowSamples a"] by simp
    ultimately show ?thesis using f False by (simp add: ring_ok_def nat_less_iff)
  qed
  moreover have "if Window a0 = ObserveEvery a0 then squares a0 = None
      else 0 <s windowSamples a0"
  proof (cases "Window a = ObserveEvery a")
    case True
    with f sn sc show ?thesis by (simp add: same_config_def)
  next
    case False
    with f have "\<not> windowSamples a <s 0" by simp
    with assms(4) have "0 <s windowSamples a"
      by (simp add: word_sless_alt) (metis less_le signed_eq_0_iff not_less)
    with False sc same_config_consts(5) [OF sc] show ?thesis by (simp add: same_config_def)
  qed
  ultimately have "ready a0"
    using f assms same_config_consts(1,5) [OF sc] sc
    by (simp add: ready_def bad_parameters_iff no_wrap_def same_config_def)
  with Inr f pe sc show ?thesis by simp
qed

lemma init_ready: "ready a \<Longrightarrow> init a = Inr a"
  by (simp add: ready_def init_again)

lemma Write_after_init:
  assumes "init a = Inr a0" "ready a0"
  shows "Write a p = Write a0 p"
  using Write_unfold [OF assms(1), of p] Write_unfold [OF init_ready [OF assms(2)], of p]
  by simp

lemma startable_Write:
  assumes "startable a"
  shows "\<exists>n e a'. Write a p = Some (n, e, a') \<and> (e = None \<longrightarrow> ready a')"
proof (cases "ready a")
  case True
  from ready_Write [OF True, of p] show ?thesis by auto
next
  case False
  with assms have f: "fresh a" "valid_config a" "no_wrap a" "windowSamples a \<noteq> 0"
    by (auto simp: startable_def)
  from first_init [OF f] show ?thesis
  proof
    assume "\<exists>ae. init a = Inl (PanicMakeSlice, ae)"
    then show ?thesis by (auto simp: Write_def)
  next
    assume "\<exists>a0. init a = Inr a0 \<and> ready a0 \<and> pending a0 = [] \<and> same_config a a0"
    then obtain a0 where a0: "init a = Inr a0" "ready a0" by blast
    from ready_Write [OF a0(2), of p] Write_after_init [OF a0, of p] show ?thesis by auto
  qed
qed

lemma startable_split:
  assumes "startable a"
  shows "\<exists>e a'. writes a [b1, b2] = Some (e, a') \<and> writes a [b1 @ b2] = Some (e, a') \<and>
    (e = None \<longrightarrow> ready a')"
proof (cases "ready a")
  case True
  from ready_split [OF True, of b1 b2] show ?thesis by auto
next
  case False
  with assms have f: "fresh a" "valid_config a" "no_wrap a" "windowSamples a \<noteq> 0"
    by (auto simp: startable_def)
  from first_init [OF f] show ?thesis
  proof
    assume "\<exists>ae. init a = Inl (PanicMakeSlice, ae)"
    then show ?thesis by (auto simp: Write_def)
  next
    assume "\<exists>a0. init a = Inr a0 \<and> ready a0 \<and> pending a0 = [] \<and> same_config a a0"
    then obtain a0 where a0: "init a = Inr a0" "ready a0" by blast
    from ready_Write [OF a0(2), of b1] obtain a1 where
      1: "Write a0 b1 = Some (length b1, None, a1)" by blast
    have "writes a [b1, b2] = writes a0 [b1, b2]"
      using Write_after_init [OF a0, of b1] by simp
    moreover have "writes a [b1 @ b2] = writes a0 [b1 @ b2]"
      using Write_after_init [OF a0, of "b1 @ b2"] by simp
    ultimately show ?thesis
      using ready_split [OF a0(2), of b1 b2] by auto
  qed
qed

lemma startable_writes:
  assumes "startable a"
  shows "\<exists>e a'. writes a ps = Some (e, a') \<and> (e = None \<longrightarrow> startable a')"
  using assms
proof (induction ps arbitrary: a)
  case Nil
  then show ?case by simp
next
  case (Cons p ps)
  from startable_Write [OF Cons.prems, of p] obtain n e a' where
    W: "Write a p = Some (n, e, a')" "e = None \<longrightarrow> ready a'" by blast
  show ?case
  proof (cases e)
    case None
    with W have "startable a'" by (simp add: startable_def)
    from Cons.IH [OF this] W None show ?thesis by simp
  next
    case (Some er)
    with W show ?thesis by simp
  qed
qed

section \<open>Streams under a configuration where nothing wraps around\<close>

lemma ready_config:
  assumes "ready b" "same_config b c" "nwindow c = nwindow b" "ring_ok c"
    "(squares c = None) = (squares b = None)"
  shows "ready c"
proof -
  have "bad_parameters c = bad_parameters b" "windowSamples c = windowSamples b"
    using same_config_consts [OF assms(2)] by simp_all
  moreover have "no_wrap c = no_wrap b" "Window c = Window b" "ObserveEvery c = ObserveEvery b"
    using assms(2) by (simp_all add: no_wrap_def same_config_def)
  ultimately show ?thesis
    using assms(1,3,4,5) by (auto simp: ready_def split: if_splits)
qed

lemma ready_channels:
  assumes "ready b" "frame_bytes b \<le> int (length q)"
  shows "\<exists>a1. channels_loop b 0 q = Inr (a1, drop (frame_size b) q) \<and>
    frame_size b \<le> length q \<and> same_setup b a1 \<and> ring_ok a1 \<and> ring_filled a1 \<and>
    countdown a1 = countdown b \<and> observed a1 = observed b"
proof -
  from assms(1) have nb: "\<not> bad_parameters b" and nw: "no_wrap b" and rb: "ring_ok b"
    by (simp_all add: ready_def)
  note w = valid_word_size [OF nb]
  note c = valid_channels [OF nb]
  from frame_bytes_exact [OF nb nw] assms(2) have fs: "frame_size b \<le> length q" by simp
  then have "nat (sint (Channels b) - 0) * word_bytes b \<le> length q"
    by (simp add: frame_size_def word_bytes_def)
  from channels_loop_enough [OF rb w(3) _ this] c
  obtain a1 p' where cl: "channels_loop b 0 q = Inr (a1, p')" by auto
  note e = channels_loop_Inr [OF cl w(3)]
  note fc = frame_consumed [OF nb cl]
  have "ring_ok a1" "ring_filled a1"
    using channels_loop_ring [OF rb, of 0 q] cl c by simp_all
  with cl fc fs e c show ?thesis by simp
qed

lemma ready_report:
  assumes "ready b" "same_setup b a1" "ring_ok a1" "ring_filled a1"
  shows "\<exists>a2. report a1 = Inr a2 \<and> ready a2 \<and> same_setup a1 a2"
proof (cases "report a1")
  case (Inl x)
  obtain e ae where x: "x = (e, ae)" by (cases x)
  from report_Inl_cause [OF Inl [unfolded x] assms(3,4)] assms(1,2)
  show ?thesis by (simp add: ready_def same_setup_def)
next
  case (Inr a2)
  note rr = report_Inr [OF Inr]
  have s: "same_setup b a2" using assms(2) rr by (auto intro: same_setup_trans)
  have "ready a2"
  proof (rule ready_config [OF assms(1)])
    show "same_config b a2" using s by (rule same_setup_config)
    show "nwindow a2 = nwindow b" "(squares a2 = None) = (squares b = None)"
      using s by (simp_all add: same_setup_def)
    show "ring_ok a2" using report_ring [OF Inr] assms(3) by simp
  qed
  with Inr rr show ?thesis by simp
qed

lemma ready_frame_size: "ready b \<Longrightarrow> 0 < frame_size b"
  by (simp add: ready_def frame_size_pos)

lemma pending_update_consts [simp]:
  "no_wrap (b\<lparr>pending := x\<rparr>) = no_wrap b"
  "windowSamples (b\<lparr>pending := x\<rparr>) = windowSamples b"
  "reportPeriodSamples (b\<lparr>pending := x\<rparr>) = reportPeriodSamples b"
  "frame_size (b\<lparr>pending := x\<rparr>) = frame_size b"
  by (simp_all add: no_wrap_def windowSamples_def reportPeriodSamples_def frame_size_def)

lemma ready_with_pending [simp]: "ready (with_pending x b) = ready b"
  by (simp add: ready_def with_pending_def)

lemma same_config_with_pending [simp]:
  "same_config a (with_pending x b) = same_config a b"
  by (simp add: same_config_def with_pending_def)

text \<open>An invariant \<open>M k b\<close> of the analyzer \<open>b\<close> after \<open>k\<close> frames of the stream \<open>B\<close>.\<close>

lemma ready_frames_rule:
  assumes b: "ready b" "same_config a b"
    and pos: "k * frame_size a \<le> length B" "drop (k * frame_size a) B = q @ rest" "M k b"
    and step: "\<And>b k a1 a2. ready b \<Longrightarrow> same_config a b \<Longrightarrow> M k b \<Longrightarrow>
      (k + 1) * frame_size a \<le> length B \<Longrightarrow>
      channels_loop b 0 (drop (k * frame_size a) B) =
        Inr (a1, drop ((k + 1) * frame_size a) B) \<Longrightarrow>
      report a1 = Inr a2 \<Longrightarrow> M (Suc k) a2"
  shows "\<exists>b' r k'. frames b q = Some (Inr (b', r)) \<and> ready b' \<and> same_config a b' \<and>
    k' * frame_size a \<le> length B \<and> drop (k' * frame_size a) B = r @ rest \<and> M k' b' \<and>
    length r < frame_size a"
proof -
  define I where "I = (\<lambda>b q. ready b \<and> same_config a b \<and>
    (\<exists>k. k * frame_size a \<le> length B \<and> drop (k * frame_size a) B = q @ rest \<and> M k b))"
  define Q where "Q = (\<lambda>(e :: error) (ae :: Analyzer). False)"
  have "\<exists>r. frames b q = Some r \<and>
    (case r of Inl (e, ae) \<Rightarrow> Q e ae
     | Inr (a', p') \<Rightarrow> I a' p' \<and> \<not> frame_bytes a' \<le> int (length p'))"
  proof (rule frames_rule [where I = I and Q = Q])
    show "I b q" using b pos by (auto simp: I_def)
  next
    fix b q a1 p'
    assume i: "I b q" and fb: "frame_bytes b \<le> int (length q)"
      and cl: "channels_loop b 0 q = Inr (a1, p')"
    from i have rb: "ready b" and sc: "same_config a b" by (simp_all add: I_def)
    from i obtain k where k: "k * frame_size a \<le> length B"
      "drop (k * frame_size a) B = q @ rest" "M k b"
      by (auto simp: I_def)
    have fs: "frame_size b = frame_size a" using same_config_consts(3) [OF sc] .
    from ready_channels [OF rb fb] cl have c: "p' = drop (frame_size a) q"
      "frame_size a \<le> length q" "same_setup b a1" "ring_ok a1" "ring_filled a1"
      by (simp_all add: fs)
    from ready_report [OF rb c(3,4,5)] obtain a2 where
      r: "report a1 = Inr a2" "ready a2" "same_setup a1 a2" by blast
    have sc2: "same_config a a2"
      using same_config_trans [OF sc same_setup_config [OF same_setup_trans [OF c(3) r(3)]]] .
    have len: "length (q @ rest) = length B - k * frame_size a"
      using k(2) [symmetric] by simp
    have k1: "(k + 1) * frame_size a \<le> length B"
      using c(2) len k(1) by simp
    have d: "drop ((k + 1) * frame_size a) B = p' @ rest"
    proof -
      have "drop ((k + 1) * frame_size a) B = drop (frame_size a) (drop (k * frame_size a) B)"
        by (simp add: add.commute)
      also have "\<dots> = drop (frame_size a) q @ rest" using k(2) c(2) by simp
      finally show ?thesis using c(1) by simp
    qed
    have "channels_loop b 0 (drop (k * frame_size a) B) = Inr (a1, drop ((k + 1) * frame_size a) B)"
      using channels_loop_append [OF cl, of rest] k(2) d by simp
    from step [OF rb sc k(3) k1 this r(1)] have "M (Suc k) a2" .
    then have "\<exists>k. k * frame_size a \<le> length B \<and> drop (k * frame_size a) B = p' @ rest \<and>
        M k a2"
      using k1 d by (intro exI [of _ "Suc k"]) simp
    then have "I a2 p'" using r(2) sc2 by (simp add: I_def)
    moreover have "length p' < length q"
      using c(1,2) ready_frame_size [OF rb] fs by simp
    ultimately show "length p' < length q \<and>
      (case report a1 of Inl (e, ae) \<Rightarrow> Q e ae | Inr a2 \<Rightarrow> I a2 p')"
      using r(1) by simp
  next
    fix b q e ae
    assume i: "I b q" and fb: "frame_bytes b \<le> int (length q)"
      and cl: "channels_loop b 0 q = Inl (e, ae)"
    from i have rb: "ready b" by (simp add: I_def)
    from ready_channels [OF rb fb] cl show "Q e ae" by simp
  qed
  then obtain res where res: "frames b q = Some res"
    "case res of Inl (e, ae) \<Rightarrow> Q e ae
     | Inr (a', p') \<Rightarrow> I a' p' \<and> \<not> frame_bytes a' \<le> int (length p')"
    by blast
  from res(2) obtain b' r where br: "res = Inr (b', r)"
    by (cases res) (auto simp: Q_def)
  with res have f: "frames b q = Some (Inr (b', r))" "I b' r"
    "\<not> frame_bytes b' \<le> int (length r)"
    by simp_all
  from f(2) have rb': "ready b'" and sc': "same_config a b'" by (simp_all add: I_def)
  have "frame_bytes b' = int (frame_size a)"
    using frame_bytes_exact [of b'] rb' same_config_consts(3) [OF sc'] by (simp add: ready_def)
  with f(3) have "length r < frame_size a" by simp
  with f show ?thesis by (auto simp: I_def)
qed

lemma frame_count_unique:
  fixes fs :: nat
  assumes "k * fs \<le> n" "n - k * fs < fs"
  shows "k = n div fs"
proof -
  have pos: "0 < fs" using assms(2) by (cases fs) auto
  have "n = k * fs + (n - k * fs)" using assms(1) by simp
  then have "n div fs = (k * fs + (n - k * fs)) div fs" by simp
  also have "\<dots> = k" using assms(2) pos by simp
  finally show ?thesis by simp
qed

lemma ready_stream_rule:
  assumes a: "fresh a" "valid_config a" "no_wrap a" "windowSamples a \<noteq> 0"
      "Window a = ObserveEvery a \<or> 0 <s windowSamples a"
    and ne: "ps \<noteq> []"
    and base: "\<And>a0. init a = Inr a0 \<Longrightarrow> ready a0 \<Longrightarrow> same_config a a0 \<Longrightarrow> M 0 a0"
    and step: "\<And>b k a1 a2. ready b \<Longrightarrow> same_config a b \<Longrightarrow> M k b \<Longrightarrow>
      (k + 1) * frame_size a \<le> length (concat ps) \<Longrightarrow>
      channels_loop b 0 (drop (k * frame_size a) (concat ps)) =
        Inr (a1, drop ((k + 1) * frame_size a) (concat ps)) \<Longrightarrow>
      report a1 = Inr a2 \<Longrightarrow> M (Suc k) a2"
    and pend: "\<And>k b x. M k b \<Longrightarrow> M k (with_pending x b)"
  shows "\<exists>a'. writes a ps = Some (None, a') \<and> ready a' \<and> same_config a a' \<and>
    M (length (concat ps) div frame_size a) a' \<and>
    pending a' = drop (length (concat ps) div frame_size a * frame_size a) (concat ps)"
proof -
  define B where "B = concat ps"
  define fs where "fs = frame_size a"
  define K where "K = (\<lambda>b rest. ready b \<and> same_config a b \<and> length (pending b) < fs \<and>
    (\<exists>k. k * fs \<le> length B \<and> drop (k * fs) B = pending b @ concat rest \<and> M k b))"
  have K_Write: "\<exists>b'. Write b p = Some (length p, None, b') \<and> K b' rest"
    if "K b (p # rest)" for b p rest
  proof -
    from that have rb: "ready b" and sc: "same_config a b" by (simp_all add: K_def)
    from that obtain k where k: "k * fs \<le> length B"
      "drop (k * fs) B = (pending b @ p) @ concat rest" "M k b"
      by (auto simp: K_def)
    have "\<exists>b' r k'. frames b (pending b @ p) = Some (Inr (b', r)) \<and> ready b' \<and>
      same_config a b' \<and> k' * frame_size a \<le> length B \<and>
      drop (k' * frame_size a) B = r @ concat rest \<and> M k' b' \<and> length r < frame_size a"
    proof (rule ready_frames_rule [where M = M and k = k and B = B, OF rb sc])
      show "k * frame_size a \<le> length B" using k(1) by (simp add: fs_def)
      show "drop (k * frame_size a) B = (pending b @ p) @ concat rest"
        using k(2) by (simp add: fs_def)
      show "M k b" by (rule k(3))
    next
      fix b k a1 a2
      assume "ready b" "same_config a b" "M k b" "(k + 1) * frame_size a \<le> length B"
        "channels_loop b 0 (drop (k * frame_size a) B) =
          Inr (a1, drop ((k + 1) * frame_size a) B)"
        "report a1 = Inr a2"
      then show "M (Suc k) a2" unfolding B_def by (rule step)
    qed
    then obtain b' r k' where f: "frames b (pending b @ p) = Some (Inr (b', r))" "ready b'"
      "same_config a b'" "k' * fs \<le> length B" "drop (k' * fs) B = r @ concat rest"
      "M k' b'" "length r < fs"
      by (auto simp: fs_def)
    have "Write b p = Some (length p, None, with_pending r b')"
      using Write_unfold [OF init_ready [OF rb], of p] f(1) by simp
    moreover have "K (with_pending r b') rest"
      using f pend [OF f(6), of r] by (auto simp: K_def)
    ultimately show ?thesis by blast
  qed
  have K_writes: "\<exists>b'. writes b rest = Some (None, b') \<and> K b' []" if "K b rest" for b rest
    using that
  proof (induction rest arbitrary: b)
    case Nil
    then show ?case by simp
  next
    case (Cons p rest)
    from K_Write [OF Cons.prems] obtain b1 where
      "Write b p = Some (length p, None, b1)" "K b1 rest" by blast
    with Cons.IH [of b1] show ?case by simp
  qed
  from ne obtain p rest where ps: "ps = p # rest" by (cases ps) auto
  from first_init [OF a(1-4)] obtain a0 where a0: "init a = Inr a0" "ready a0"
    "pending a0 = []" "same_config a a0"
  proof
    assume "\<exists>ae. init a = Inl (PanicMakeSlice, ae)"
    then obtain ae where "init a = Inl (PanicMakeSlice, ae)" by blast
    from init_Inl [OF this] a(5) have False by (auto simp: word_sless_alt)
    then show ?thesis ..
  next
    assume "\<exists>a0. init a = Inr a0 \<and> ready a0 \<and> pending a0 = [] \<and> same_config a a0"
    then show ?thesis using that by blast
  qed
  have pos: "0 < fs"
    using ready_frame_size [OF a0(2)] same_config_consts(3) [OF a0(4)] by (simp add: fs_def)
  have "K a0 ps"
    unfolding K_def using a0 base [OF a0(1,2,4)] pos
    by (auto simp: B_def intro!: exI [of _ 0])
  from K_writes [OF this] obtain a' where w: "writes a0 ps = Some (None, a')" "K a' []"
    by blast
  have "writes a ps = writes a0 ps"
    using Write_after_init [OF a0(1,2), of p] by (simp add: ps)
  with w have W: "writes a ps = Some (None, a')" by simp
  from w(2) obtain k where k: "k * fs \<le> length B" "drop (k * fs) B = pending a'" "M k a'"
    "length (pending a') < fs" "ready a'" "same_config a a'"
    by (auto simp: K_def)
  have "length (pending a') = length B - k * fs" using k(2) [symmetric] by simp
  with k(1,4) have "k = length B div fs" by (intro frame_count_unique) simp_all
  with W k show ?thesis by (auto simp: B_def fs_def)
qed

lemma channels_loop_frame:
  assumes "ready b" "frame_size b \<le> length X"
    "channels_loop b 0 X = Inr (a1, drop (frame_size b) X)"
  shows "channels_loop b 0 (take (frame_size b) X) = Inr (a1, [])"
proof -
  from assms(1) have nb: "\<not> bad_parameters b" and rb: "ring_ok b"
    by (simp_all add: ready_def)
  note w = valid_word_size [OF nb]
  note c = valid_channels [OF nb]
  have "nat (sint (Channels b) - 0) * word_bytes b \<le> length (take (frame_size b) X)"
    using assms(2) by (simp add: frame_size_def word_bytes_def)
  from channels_loop_enough [OF rb w(3) _ this] c
  obtain a1' p' where cl: "channels_loop b 0 (take (frame_size b) X) = Inr (a1', p')" by auto
  from frame_consumed(1) [OF nb cl] have p': "p' = []" by simp
  from channels_loop_append [OF cl, of "drop (frame_size b) X"]
  have "channels_loop b 0 X = Inr (a1', p' @ drop (frame_size b) X)" by simp
  with assms(3) have "a1' = a1" by simp
  with cl p' show ?thesis by simp
qed

lemma with_pending_same [simp]: "with_pending (pending a) a = a"
  by (simp add: with_pending_def)

lemma frame_size_with_pending [simp]: "frame_size (with_pending x b) = frame_size b"
  by (simp add: with_pending_def)

lemma writes_whole_frames:
  assumes a: "fresh a" "valid_config a" "no_wrap a" "windowSamples a \<noteq> 0"
      "Window a = ObserveEvery a \<or> 0 <s windowSamples a"
    and ne: "ps \<noteq> []"
  shows "\<exists>c. whole_stream a (concat ps) = Inr c \<and>
    writes a ps = Some (None, with_pending (leftover a (concat ps)) c)"
proof -
  define B where "B = concat ps"
  define M where "M = (\<lambda>k b. \<exists>a0. init a = Inr a0 \<and> same_config a a0 \<and>
    whole_frames a0 B k = Inr (with_pending [] b))"
  have "\<exists>a'. writes a ps = Some (None, a') \<and> ready a' \<and> same_config a a' \<and>
    M (length (concat ps) div frame_size a) a' \<and>
    pending a' = drop (length (concat ps) div frame_size a * frame_size a) (concat ps)"
  proof (rule ready_stream_rule [where M = M, OF a ne])
    fix a0 assume i: "init a = Inr a0" and sc: "same_config a a0"
    from first_init [OF a(1-4)] i have "pending a0 = []" by auto
    then have "with_pending [] a0 = a0" using with_pending_same [of a0] by simp
    with i sc show "M 0 a0" by (simp add: M_def)
  next
    fix b k a1 a2
    assume rb: "ready b" and sc: "same_config a b" and m: "M k b"
      and le: "(k + 1) * frame_size a \<le> length (concat ps)"
      and cl: "channels_loop b 0 (drop (k * frame_size a) (concat ps)) =
        Inr (a1, drop ((k + 1) * frame_size a) (concat ps))"
      and rp: "report a1 = Inr a2"
    from m obtain a0 where i: "init a = Inr a0" and s0: "same_config a a0"
      and wf: "whole_frames a0 B k = Inr (with_pending [] b)"
      by (auto simp: M_def)
    have fb: "frame_size b = frame_size a" using same_config_consts(3) [OF sc] .
    have f0: "frame_size a0 = frame_size a" using same_config_consts(3) [OF s0] .
    have d: "drop ((k + 1) * frame_size a) B = drop (frame_size b) (drop (k * frame_size a) B)"
      by (simp add: fb add.commute)
    have l: "frame_size b \<le> length (drop (k * frame_size a) B)"
      using le by (simp add: fb B_def)
    have "channels_loop b 0 (take (frame_size b) (drop (k * frame_size a) B)) = Inr (a1, [])"
      using cl unfolding B_def [symmetric] d by (rule channels_loop_frame [OF rb l])
    then have "channels_loop b 0 (frame_of a0 B k) = Inr (a1, [])"
      by (simp add: frame_of_def f0 fb)
    then have "channels_loop (with_pending [] b) 0 (frame_of a0 B k) =
        Inr (with_pending [] a1, [])"
      by (simp only: channels_loop_pending sum.case prod.case)
    moreover have "report (with_pending [] a1) = Inr (with_pending [] a2)"
      using rp by (simp add: report_pending)
    ultimately have "whole_frames a0 B (Suc k) = Inr (with_pending [] a2)"
      using wf by (simp del: channels_loop.simps)
    with i s0 show "M (Suc k) a2" by (auto simp: M_def)
  next
    fix k b x assume "M k b"
    then show "M k (with_pending x b)" by (simp add: M_def)
  qed
  then obtain a' where w: "writes a ps = Some (None, a')"
    and m: "M (length B div frame_size a) a'"
    and p: "pending a' = leftover a B"
    by (auto simp: B_def leftover_def)
  from m obtain a0 where i: "init a = Inr a0" and s0: "same_config a a0"
    and wf: "whole_frames a0 B (length B div frame_size a) = Inr (with_pending [] a')"
    by (auto simp: M_def)
  have f0: "frame_size a0 = frame_size a" using same_config_consts(3) [OF s0] .
  have "whole_stream a B = Inr (with_pending [] a')"
    using i wf by (simp add: whole_stream_def f0)
  moreover have "with_pending (leftover a B) (with_pending [] a') = a'"
    using p with_pending_same [of a'] by simp
  ultimately show ?thesis using w by (simp add: B_def)
qed

lemma leftover_short:
  assumes "0 < frame_size a"
  shows "length (leftover a B) < frame_size a"
proof -
  have "length (leftover a B) = length B mod frame_size a"
    by (simp add: leftover_def minus_div_mult_eq_mod)
  then show ?thesis using assms by simp
qed

section \<open>Reports and the running sum along a stream\<close>

lemma roll_held:
  assumes "ring_ok a" "roll a q = Inr a'"
  shows "held a' = (if squares a = None then 0 else min (held a + 1) (cap_squares a)) \<and>
    cap_squares a' = cap_squares a"
proof (cases "squares a")
  case None
  with assms show ?thesis by (simp add: roll_def held_def)
next
  case (Some sq)
  with assms(1) have r: "length sq \<le> cap_squares a" "0 < cap_squares a" "- 1 \<le> next_a a"
    "next_a a + 1 = int (length sq) \<or> (length sq = cap_squares a \<and> next_a a < int (cap_squares a))"
    by (simp_all add: ring_ok_def)
  show ?thesis
  proof (cases "next_a a + 1 = int (cap_squares a)")
    case True
    with r have "length sq = cap_squares a" by auto
    with True r Some assms(2) show ?thesis
      by (auto simp add: roll_def advance_def Let_def held_def split: if_splits)
  next
    case nc: False
    show ?thesis
    proof (cases "next_a a + 1 = int (length sq)")
      case True
      with nc r Some assms(2) show ?thesis
        by (auto simp add: roll_def advance_def Let_def held_def split: if_splits)
    next
      case False
      with nc r Some assms(2) show ?thesis
        by (auto simp add: roll_def advance_def Let_def held_def split: if_splits)
    qed
  qed
qed

lemma held_update [simp]:
  "held (a\<lparr>sum_a := x\<rparr>) = held a" "held (a\<lparr>peak := y\<rparr>) = held a"
  by (simp_all add: held_def)

lemma add_sample_held:
  assumes "ring_ok a" "add_sample a s = Inr a'"
  shows "held a' = (if squares a = None then 0 else min (held a + 1) (cap_squares a))"
    "cap_squares a' = cap_squares a"
proof -
  from assms(2) obtain a1 where r: "roll (a\<lparr>sum_a := sum_a a + s * s\<rparr>) (s * s) = Inr a1"
    "a' = track_peak a1 s"
    by (auto simp: add_sample_def Let_def split: sum.splits)
  have "ring_ok (a\<lparr>sum_a := sum_a a + s * s\<rparr>)" using assms(1) by simp
  from roll_held [OF this r(1)] r(2)
  show "held a' = (if squares a = None then 0 else min (held a + 1) (cap_squares a))"
    "cap_squares a' = cap_squares a"
    by (simp_all add: track_peak_def)
qed

lemma channels_loop_held:
  assumes "ring_ok a" "channels_loop a c p = Inr (a1, p')" "c \<le> sint (Channels a)"
  shows "held a1 = (if squares a = None then 0
    else min (held a + nat (sint (Channels a) - c)) (cap_squares a))"
  using assms
proof (induction a c p rule: channels_loop.induct)
  case (1 a c p)
  show ?case
  proof (cases "c < sint (Channels a)")
    case False
    with "1.prems" have "a1 = a" "sint (Channels a) - c = 0"
      by (simp_all del: channels_loop.simps add: channels_loop.simps [of a c p])
    with "1.prems"(1) show ?thesis
      by (auto simp: held_def ring_ok_def split: option.splits)
  next
    case True
    obtain s q where rw: "read_word (bigshift a) (littleshift a) (unat (WordSize a)) 0 0 p = Some (s, q)"
      using "1.prems"(2) True
      by (auto split: option.splits simp del: channels_loop.simps
          simp add: channels_loop.simps [of a c p])
    obtain a' where as: "add_sample a (sign_convert a s) = Inr a'"
      using "1.prems"(2) True rw
      by (auto split: sum.splits simp del: channels_loop.simps
          simp add: channels_loop.simps [of a c p])
    have rec: "channels_loop a' (c + 1) q = Inr (a1, p')"
      using "1.prems"(2) True rw as
      by (simp del: channels_loop.simps add: channels_loop.simps [of a c p])
    from add_sample_ok [OF "1.prems"(1), of "sign_convert a s"] as have ok: "ring_ok a'" by simp
    note st = add_sample_Inr [OF as]
    have ch: "Channels a' = Channels a" "(squares a' = None) = (squares a = None)"
      using st by (simp_all add: same_setup_def)
    note h = add_sample_held [OF "1.prems"(1) as]
    have ih: "held a1 = (if squares a' = None then 0
      else min (held a' + nat (sint (Channels a') - (c + 1))) (cap_squares a'))"
      using "1.IH" [OF True rw refl as ok rec] True ch by simp
    show ?thesis
    proof (cases "squares a = None")
      case True
      with ih ch show ?thesis by simp
    next
      case False
      define m where "m = nat (sint (Channels a) - (c + 1))"
      have n: "nat (sint (Channels a) - c) = Suc m"
        using True by (simp add: m_def)
      have 1: "held a1 = min (held a' + m) (cap_squares a)"
        using False ih ch h(2) by (auto simp: m_def)
      have 2: "held a' = min (held a + 1) (cap_squares a)"
        using False h(1) by auto
      have "held a1 = min (held a + Suc m) (cap_squares a)"
        unfolding 1 2 by (simp add: min_def)
      with False show ?thesis by (auto simp: n)
    qed
  qed
qed

lemma report_effect:
  assumes "report a = Inr a'"
  shows "if countdown a - 1 = 0
    then observed a' = observed a @
        (if ObserveRMS a then [RMS (sum_a a)
           (case squares a of None \<Rightarrow> nwindow a | Some sq \<Rightarrow> word_of_nat (length sq))]
         else []) @
        (if ObservePeak a then [Peak (peak a)] else []) \<and>
      countdown a' = nobserve a \<and>
      sum_a a' = (if squares a = None then 0 else sum_a a)
    else observed a' = observed a \<and> countdown a' = countdown a - 1 \<and> sum_a a' = sum_a a"
proof (cases "countdown a - 1 = 0")
  case False
  from assms report_idle [OF False] have "a' = a\<lparr>countdown := countdown a - 1\<rparr>" by simp
  with False show ?thesis by simp
next
  case True
  define a1 where "a1 = a\<lparr>countdown := countdown a - 1\<rparr>"
  define n where "n = (case squares a of None \<Rightarrow> nwindow a | Some sq \<Rightarrow> word_of_nat (length sq))"
  have n1: "(case squares a1 of None \<Rightarrow> nwindow a1 | Some sq \<Rightarrow> word_of_nat (length sq)) = n"
    by (simp add: a1_def n_def split: option.splits)
  have R: "report a =
    (case observe_rms a1 n of
       Inl e \<Rightarrow> Inl e
     | Inr a2 \<Rightarrow>
         (let a3 = observe_peak a2;
              a4 = (if squares a3 = None then a3\<lparr>sum_a := 0\<rparr> else a3)
          in Inr (a4\<lparr>countdown := nobserve a4\<rparr>)))"
    unfolding report_def Let_def a1_def [symmetric] n1 using True by (simp add: a1_def)
  from assms R obtain a2 where a2: "observe_rms a1 n = Inr a2"
    by (cases "observe_rms a1 n") auto
  have o2: "a2 = (if ObserveRMS a then a1\<lparr>observed := observed a @ [RMS (sum_a a) n]\<rparr> else a1)"
    using a2 by (auto simp: observe_rms_def a1_def split: if_splits)
  from assms R a2 have a': "a' = (let a3 = observe_peak a2;
      a4 = (if squares a3 = None then a3\<lparr>sum_a := 0\<rparr> else a3)
    in a4\<lparr>countdown := nobserve a4\<rparr>)"
    by (simp add: Let_def)
  show ?thesis
    using True unfolding a' o2 n_def [symmetric]
    by (auto simp: Let_def observe_peak_def a1_def)
qed

lemma countdown_step:
  fixes N k :: nat
  assumes "1 \<le> N" "N < 2 ^ 63"
  shows "((word_of_nat (N - k mod N) :: int64) - 1 = 0) = (Suc k mod N = 0)"
    "Suc k mod N \<noteq> 0 \<Longrightarrow> (word_of_nat (N - k mod N) :: int64) - 1 = word_of_nat (N - Suc k mod N)"
    "Suc k mod N = 0 \<Longrightarrow> Suc k div N = Suc (k div N) \<and> Suc k = Suc (k div N) * N"
    "Suc k mod N \<noteq> 0 \<Longrightarrow> Suc k div N = k div N"
proof -
  define r where "r = k mod N"
  have r: "r < N" using assms(1) by (simp add: r_def)
  have s: "Suc k mod N = (if Suc r = N then 0 else Suc r)"
    unfolding r_def by (rule mod_Suc)
  have d: "Suc k div N = (if Suc r = N then Suc (k div N) else k div N)"
    using div_Suc [of k N] s by (simp only: split: if_splits) auto
  have w: "(word_of_nat (N - r) :: int64) - 1 = word_of_nat (N - r - 1)"
    using r by (simp add: of_nat_diff)
  have z: "((word_of_nat (N - r - 1) :: int64) = 0) = (N - r - 1 = 0)"
  proof -
    have "N - r - 1 < 2 ^ 64" using assms(2) by simp
    then have "0 < N - r - 1 \<Longrightarrow> (word_of_nat (N - r - 1) :: int64) \<noteq> 0"
      by (intro of_nat_neq_0) simp_all
    then show ?thesis by (cases "N - r - 1 = 0") simp_all
  qed
  show "((word_of_nat (N - k mod N) :: int64) - 1 = 0) = (Suc k mod N = 0)"
    unfolding r_def [symmetric] w z s using r by auto
  show "(word_of_nat (N - k mod N) :: int64) - 1 = word_of_nat (N - Suc k mod N)"
    if "Suc k mod N \<noteq> 0"
    using that unfolding r_def [symmetric] w s by (auto split: if_splits)
  show "Suc k div N = Suc (k div N) \<and> Suc k = Suc (k div N) * N" if "Suc k mod N = 0"
  proof -
    from that s have e: "Suc r = N" by (auto split: if_splits)
    have "k = k div N * N + r" by (simp add: r_def)
    then have "Suc k = k div N * N + N" using e by simp
    with d e show ?thesis by simp
  qed
  show "Suc k div N = k div N" if "Suc k mod N \<noteq> 0"
    using that s d by (auto split: if_splits)
qed

lemma period_nat:
  assumes "valid_config a" "reportPeriodSamples a \<noteq> 0"
  shows "1 \<le> nat (sint (reportPeriodSamples a))" "nat (sint (reportPeriodSamples a)) < 2 ^ 63"
    "word_of_nat (nat (sint (reportPeriodSamples a))) = reportPeriodSamples a"
proof -
  have 0: "0 \<le> sint (reportPeriodSamples a)"
    using assms(1) by (simp add: valid_config_def word_sle_eq)
  have "sint (reportPeriodSamples a) \<noteq> 0" using assms(2) by (simp add: signed_eq_0_iff)
  with 0 show "1 \<le> nat (sint (reportPeriodSamples a))" by simp
  have "sint (reportPeriodSamples a) < 2 ^ 63" using sint_lt [of "reportPeriodSamples a"] by simp
  then show "nat (sint (reportPeriodSamples a)) < 2 ^ 63" using 0 by simp
  show "word_of_nat (nat (sint (reportPeriodSamples a))) = reportPeriodSamples a"
    using 0 by simp
qed

lemma held_divisor:
  "(case squares a of None \<Rightarrow> nwindow a | Some sq \<Rightarrow> word_of_nat (length sq)) =
     (if squares a = None then nwindow a else word_of_nat (held a))"
  by (simp add: held_def split: option.splits)

lemma push_recent:
  assumes "0 < cap"
  shows "push cap (recent cap xs) q = recent cap (xs @ [q])"
proof (cases "length xs < cap")
  case True
  then show ?thesis by (simp add: push_def recent_def)
next
  case False
  then have l: "length (recent cap xs) = cap" by (simp add: recent_def)
  have "tl (drop (length xs - cap) xs) = drop (Suc (length xs - cap)) xs"
    by (simp add: drop_Suc tl_drop)
  moreover have "Suc (length xs) - cap = Suc (length xs - cap)" using False by simp
  ultimately show ?thesis
    using l False assms by (simp add: push_def recent_def)
qed

lemma sum_list_push:
  fixes w :: "int64 list"
  assumes "0 < cap" "length w \<le> cap"
  shows "sum_list (push cap w q) = sum_list w + q - (if length w < cap then 0 else hd w)"
proof (cases "length w < cap")
  case True
  then show ?thesis by (simp add: push_def)
next
  case False
  with assms obtain x t where w: "w = x # t" by (cases w) auto
  with False show ?thesis by (simp add: push_def)
qed

lemma length_window_list: "length (window_list a) = held a"
  by (auto simp: window_list_def held_def min_def split: option.splits)

lemma roll_window:
  assumes "ring_ok a" "squares a \<noteq> None" "roll a q = Inr a'"
  shows "window_list a' = push (cap_squares a) (window_list a) q \<and>
    sum_a a' = sum_a a - (if held a < cap_squares a then 0 else hd (window_list a))"
proof -
  from assms(2) obtain sq where Some: "squares a = Some sq" by auto
  with assms(1) have r: "length sq \<le> cap_squares a" "0 < cap_squares a" "- 1 \<le> next_a a"
    "next_a a + 1 = int (length sq) \<or> (length sq = cap_squares a \<and> next_a a < int (cap_squares a))"
    by (simp_all add: ring_ok_def)
  show ?thesis
  proof (cases "next_a a + 1 = int (cap_squares a)")
    case True
    with r have l: "length sq = cap_squares a" by auto
    then obtain x t where sq: "sq = x # t" using r(2) by (cases sq) auto
    have a': "a' = a\<lparr>squares := Some (sq[0 := q]), next_a := 0, sum_a := sum_a a - sq ! 0\<rparr>"
      using True r Some assms(3) l
      by (auto simp add: roll_def advance_def Let_def split: if_splits)
    have w: "window_list a = sq" using Some True l by (simp add: window_list_def)
    show ?thesis
      unfolding a' w using l r(2) sq by (simp add: window_list_def push_def held_def Some)
  next
    case nc: False
    show ?thesis
    proof (cases "next_a a + 1 = int (length sq)")
      case True
      then have n: "nat (next_a a + 1) = length sq" by simp
      have lt: "length sq < cap_squares a" using True nc r(1) by auto
      have a': "a' = a\<lparr>squares := Some (sq @ [q]), next_a := int (length sq),
          sum_a := sum_a a - 0\<rparr>"
        using True nc r Some assms(3)
        by (auto simp add: roll_def advance_def Let_def nth_append split: if_splits)
      have w: "window_list a = sq" using Some n by (simp add: window_list_def)
      have n': "nat (int (length sq) + 1) = Suc (length sq)" by simp
      show ?thesis
        unfolding a' w using lt by (simp add: window_list_def push_def held_def Some n')
    next
      case False
      with r have l: "length sq = cap_squares a" and lt: "next_a a + 1 < int (cap_squares a)"
        using nc by auto
      define nx where "nx = nat (next_a a + 1)"
      have nx: "next_a a + 1 = int nx" "nx < length sq" using r(3) lt l by (simp_all add: nx_def)
      have a': "a' = a\<lparr>squares := Some (sq[nx := q]), next_a := int nx,
          sum_a := sum_a a - sq ! nx\<rparr>"
        using False nc r Some assms(3) nx
        by (auto simp add: roll_def advance_def Let_def split: if_splits)
      have w: "window_list a = drop nx sq @ take nx sq"
        using Some by (simp add: window_list_def nx_def)
      have d: "drop nx sq = sq ! nx # drop (Suc nx) sq"
        using nx(2) by (simp add: Cons_nth_drop_Suc)
      have n': "nat (int nx + 1) = Suc nx" by simp
      have t: "take (Suc nx) (sq[nx := q]) = take nx sq @ [q]"
        using nx(2) by (simp add: take_Suc_conv_app_nth)
      have w': "window_list a' = drop (Suc nx) sq @ take nx sq @ [q]"
        unfolding a' by (simp add: window_list_def n' t)
      show ?thesis
        unfolding w' unfolding w d using l
        by (simp add: push_def held_def Some a')
    qed
  qed
qed

lemma window_list_update [simp]:
  "window_list (a\<lparr>sum_a := x\<rparr>) = window_list a"
  "window_list (a\<lparr>peak := y\<rparr>) = window_list a"
  by (simp_all add: window_list_def split: option.splits)

lemma track_peak_window [simp]:
  "window_list (track_peak a s) = window_list a" "sum_a (track_peak a s) = sum_a a"
  "squares (track_peak a s) = squares a"
  by (simp_all add: track_peak_def)

lemma add_sample_window:
  assumes "ring_ok a" "squares a \<noteq> None" "add_sample a s = Inr a'"
    and "window_list a = recent (cap_squares a) ys" "sum_a a = sum_list (window_list a)"
  shows "window_list a' = recent (cap_squares a) (ys @ [s * s])"
    "sum_a a' = sum_list (window_list a')"
proof -
  define b where "b = a\<lparr>sum_a := sum_a a + s * s\<rparr>"
  from assms(3) obtain a1 where r: "roll b (s * s) = Inr a1" "a' = track_peak a1 s"
    by (auto simp: add_sample_def Let_def b_def split: sum.splits)
  have ok: "ring_ok b" "squares b \<noteq> None" using assms(1,2) by (simp_all add: b_def)
  from assms(1,2) have cap: "0 < cap_squares a" "held a \<le> cap_squares a"
    by (auto simp: ring_ok_def held_def)
  note rw = roll_window [OF ok r(1)]
  have b: "window_list b = window_list a" "cap_squares b = cap_squares a" "held b = held a"
    "sum_a b = sum_a a + s * s"
    by (simp_all add: b_def)
  from rw have w: "window_list a1 = push (cap_squares a) (window_list a) (s * s)"
    and su: "sum_a a1 = sum_a a + s * s - (if held a < cap_squares a then 0 else hd (window_list a))"
    unfolding b by simp_all
  show "window_list a' = recent (cap_squares a) (ys @ [s * s])"
    unfolding r(2) using w assms(4) push_recent [OF cap(1)] by simp
  have "sum_list (window_list a1) =
      sum_list (window_list a) + s * s - (if held a < cap_squares a then 0 else hd (window_list a))"
    unfolding w using sum_list_push [OF cap(1), of "window_list a" "s * s"] cap(2)
    by (simp add: length_window_list)
  with su assms(5) show "sum_a a' = sum_list (window_list a')"
    unfolding r(2) by simp
qed

lemma add_sample_sum:
  assumes "squares a = None" "add_sample a s = Inr a'"
  shows "sum_a a' = sum_a a + s * s"
  using assms by (auto simp: add_sample_def roll_def Let_def)

lemma decode_samples_config:
  assumes "WordSize b = WordSize a" "LittleEndian b = LittleEndian a" "Signed b = Signed a"
  shows "decode_samples b n p = decode_samples a n p"
  using assms
  by (induction n arbitrary: p)
    (auto simp: sign_convert_def bigshift_def littleshift_def split: option.splits)

lemma channels_loop_window:
  assumes "ring_ok a" "squares a \<noteq> None" "channels_loop a c p = Inr (a1, p')"
    and "window_list a = recent (cap_squares a) (map (\<lambda>s. s * s) ys)"
    and "sum_a a = sum_list (window_list a)"
  shows "window_list a1 = recent (cap_squares a)
      (map (\<lambda>s. s * s) (ys @ decode_samples a (nat (sint (Channels a) - c)) p)) \<and>
    sum_a a1 = sum_list (window_list a1)"
  using assms
proof (induction a c p arbitrary: ys rule: channels_loop.induct)
  case (1 a c p)
  show ?case
  proof (cases "c < sint (Channels a)")
    case False
    with "1.prems" have "a1 = a" "nat (sint (Channels a) - c) = 0"
      by (simp_all del: channels_loop.simps add: channels_loop.simps [of a c p])
    with "1.prems" show ?thesis by simp
  next
    case True
    obtain s q where rw: "read_word (bigshift a) (littleshift a) (unat (WordSize a)) 0 0 p = Some (s, q)"
      using "1.prems"(3) True
      by (auto split: option.splits simp del: channels_loop.simps
          simp add: channels_loop.simps [of a c p])
    obtain a' where as: "add_sample a (sign_convert a s) = Inr a'"
      using "1.prems"(3) True rw
      by (auto split: sum.splits simp del: channels_loop.simps
          simp add: channels_loop.simps [of a c p])
    have rec: "channels_loop a' (c + 1) q = Inr (a1, p')"
      using "1.prems"(3) True rw as
      by (simp del: channels_loop.simps add: channels_loop.simps [of a c p])
    from add_sample_ok [OF "1.prems"(1), of "sign_convert a s"] as have ok: "ring_ok a'" by simp
    note st = add_sample_Inr [OF as]
    have ch: "Channels a' = Channels a" "squares a' \<noteq> None" "cap_squares a' = cap_squares a"
      "WordSize a' = WordSize a" "LittleEndian a' = LittleEndian a" "Signed a' = Signed a"
      using st "1.prems"(2) by (simp_all add: same_setup_def)
    define x where "x = sign_convert a s"
    note aw = add_sample_window [OF "1.prems"(1,2) as "1.prems"(4,5), folded x_def]
    have w': "window_list a' = recent (cap_squares a') (map (\<lambda>s. s * s) (ys @ [x]))"
      using aw(1) ch(3) by simp
    note ih = "1.IH" [OF True rw refl as ok ch(2) rec w' aw(2)]
    define m where "m = nat (sint (Channels a) - (c + 1))"
    have n: "nat (sint (Channels a) - c) = Suc m"
      using True by (simp add: m_def)
    have d: "decode_samples a (Suc m) p = x # decode_samples a' m q"
      using rw decode_samples_config [OF ch(4,5,6)] by (simp add: x_def)
    show ?thesis
      using ih unfolding n d ch m_def [symmetric] by simp
  qed
qed

lemma sum_squares_simps [simp]:
  "sum_squares [] = 0" "sum_squares (xs @ ys) = sum_squares xs + sum_squares ys"
  "sum_squares (x # xs) = x * x + sum_squares xs"
  by (simp_all add: sum_squares_def)

lemma channels_loop_sum:
  assumes "squares a = None" "channels_loop a c p = Inr (a1, p')"
  shows "sum_a a1 = sum_a a + sum_squares (decode_samples a (nat (sint (Channels a) - c)) p)"
  using assms
proof (induction a c p rule: channels_loop.induct)
  case (1 a c p)
  show ?case
  proof (cases "c < sint (Channels a)")
    case False
    with "1.prems" have "a1 = a" "nat (sint (Channels a) - c) = 0"
      by (simp_all del: channels_loop.simps add: channels_loop.simps [of a c p])
    then show ?thesis by simp
  next
    case True
    obtain s q where rw: "read_word (bigshift a) (littleshift a) (unat (WordSize a)) 0 0 p = Some (s, q)"
      using "1.prems"(2) True
      by (auto split: option.splits simp del: channels_loop.simps
          simp add: channels_loop.simps [of a c p])
    obtain a' where as: "add_sample a (sign_convert a s) = Inr a'"
      using "1.prems"(2) True rw
      by (auto split: sum.splits simp del: channels_loop.simps
          simp add: channels_loop.simps [of a c p])
    have rec: "channels_loop a' (c + 1) q = Inr (a1, p')"
      using "1.prems"(2) True rw as
      by (simp del: channels_loop.simps add: channels_loop.simps [of a c p])
    note st = add_sample_Inr [OF as]
    have ch: "Channels a' = Channels a" "squares a' = None"
      "WordSize a' = WordSize a" "LittleEndian a' = LittleEndian a" "Signed a' = Signed a"
      using st "1.prems"(1) by (simp_all add: same_setup_def)
    define x where "x = sign_convert a s"
    have s1: "sum_a a' = sum_a a + x * x"
      using add_sample_sum [OF "1.prems"(1) as] by (simp add: x_def)
    note ih = "1.IH" [OF True rw refl as ch(2) rec]
    define m where "m = nat (sint (Channels a) - (c + 1))"
    have n: "nat (sint (Channels a) - c) = Suc m"
      using True by (simp add: m_def)
    have d: "decode_samples a (Suc m) p = x # decode_samples a' m q"
      using rw decode_samples_config [OF ch(3,4,5)] by (simp add: x_def)
    show ?thesis
      using ih unfolding n d ch m_def [symmetric] s1 by simp
  qed
qed

lemma decode_samples_append:
  assumes "8 dvd unat (WordSize a)" "n * word_bytes a \<le> length p"
  shows "decode_samples a (n + m) p =
      decode_samples a n p @ decode_samples a m (drop (n * word_bytes a) p) \<and>
    length (decode_samples a n p) = n"
  using assms(2)
proof (induction n arbitrary: p)
  case 0
  show ?case by simp
next
  case (Suc n)
  from Suc.prems have le: "word_bytes a \<le> length p" "n * word_bytes a \<le> length (drop (word_bytes a) p)"
    by simp_all
  from read_word_enough [OF assms(1), of 0 p "bigshift a" "littleshift a" 0] le(1)
  obtain raw where rw: "read_word (bigshift a) (littleshift a) (unat (WordSize a)) 0 0 p =
      Some (raw, drop (word_bytes a) p)"
    by (auto simp: word_bytes_def)
  have d: "drop (n * word_bytes a) (drop (word_bytes a) p) = drop (Suc n * word_bytes a) p"
    by (simp add: add.commute)
  from Suc.IH [OF le(2)] rw d show ?case by simp
qed

lemma recent_map: "recent n (map f xs) = map f (recent n xs)"
  by (simp add: recent_def drop_map)

lemma recent_append:
  assumes "m \<le> length xs"
  shows "recent (m + length ys) (xs @ ys) = recent m xs @ ys"
  using assms by (simp add: recent_def)

lemma recent_0 [simp]: "recent 0 xs = []"
  by (simp add: recent_def)

lemma frame_samples:
  assumes "ready b" "same_config a b" "(k + 1) * frame_size a \<le> length B"
  shows "decode_samples a (Suc k * nat (sint (Channels a))) B =
      decode_samples a (k * nat (sint (Channels a))) B @
        decode_samples b (nat (sint (Channels b) - 0)) (drop (k * frame_size a) B)"
    "length (decode_samples a (k * nat (sint (Channels a))) B) = k * nat (sint (Channels a))"
    "length (decode_samples b (nat (sint (Channels b) - 0)) (drop (k * frame_size a) B)) =
      nat (sint (Channels a))"
proof -
  from assms(1) have nb: "\<not> bad_parameters b" by (simp add: ready_def)
  note w = valid_word_size [OF nb]
  have cfg: "WordSize b = WordSize a" "LittleEndian b = LittleEndian a" "Signed b = Signed a"
    "Channels b = Channels a"
    using assms(2) by (simp_all add: same_config_def)
  define C where "C = nat (sint (Channels a))"
  have fs: "frame_size a = C * word_bytes a" by (simp add: frame_size_def word_bytes_def C_def)
  have le: "k * C * word_bytes a \<le> length B"
    using assms(3) by (simp add: fs algebra_simps)
  have le2: "C * word_bytes a \<le> length (drop (k * frame_size a) B)"
    using assms(3) by (simp add: fs algebra_simps)
  have w8: "8 dvd unat (WordSize a)" using w(3) cfg by simp
  note d = decode_samples_append [OF w8 le, of C]
  have e: "decode_samples b n p = decode_samples a n p" for n p
    by (rule decode_samples_config [OF cfg(1,2,3)])
  have k: "Suc k * C = k * C + C" by simp
  show "decode_samples a (Suc k * nat (sint (Channels a))) B =
      decode_samples a (k * nat (sint (Channels a))) B @
        decode_samples b (nat (sint (Channels b) - 0)) (drop (k * frame_size a) B)"
    unfolding C_def [symmetric] cfg k e using d by (simp add: fs C_def mult.assoc)
  show "length (decode_samples a (k * nat (sint (Channels a))) B) = k * nat (sint (Channels a))"
    using d by (simp add: C_def)
  from decode_samples_append [OF w8 le2, of 0]
  show "length (decode_samples b (nat (sint (Channels b) - 0)) (drop (k * frame_size a) B)) =
      nat (sint (Channels a))"
    unfolding e cfg by (simp add: C_def)
qed

lemma with_pending_fields [simp]:
  "squares (with_pending x b) = squares b" "cap_squares (with_pending x b) = cap_squares b"
  "sum_a (with_pending x b) = sum_a b" "countdown (with_pending x b) = countdown b"
  "nobserve (with_pending x b) = nobserve b" "observed (with_pending x b) = observed b"
  "nwindow (with_pending x b) = nwindow b" "next_a (with_pending x b) = next_a b"
  "peak (with_pending x b) = peak b"
  by (simp_all add: with_pending_def)

lemma window_list_with_pending [simp]: "window_list (with_pending x b) = window_list b"
  by (simp add: window_list_def split: option.splits)

lemma held_with_pending [simp]: "held (with_pending x b) = held b"
  by (simp add: held_def)

lemma stream_window:
  assumes a: "fresh a" "valid_config a" "no_wrap a" "windowSamples a \<noteq> 0"
      "Window a = ObserveEvery a \<or> 0 <s windowSamples a"
    and ne: "ps \<noteq> []"
    and circ: "Window a \<noteq> ObserveEvery a"
  shows "\<exists>a'. writes a ps = Some (None, a') \<and>
    sum_a a' = sum_squares (recent (nat (sint (windowSamples a))) (stream_samples a (concat ps)))"
proof -
  define C where "C = nat (sint (Channels a))"
  define B where "B = concat ps"
  define M where "M = (\<lambda>k b. squares b \<noteq> None \<and> cap_squares b = nat (sint (windowSamples a)) \<and>
    window_list b = recent (cap_squares b) (map (\<lambda>s. s * s) (decode_samples a (k * C) B)) \<and>
    sum_a b = sum_list (window_list b))"
  have "\<exists>a'. writes a ps = Some (None, a') \<and> ready a' \<and> same_config a a' \<and>
    M (length (concat ps) div frame_size a) a' \<and>
    pending a' = drop (length (concat ps) div frame_size a * frame_size a) (concat ps)"
  proof (rule ready_stream_rule [where M = M, OF a ne])
    fix a0 assume i: "init a = Inr a0"
    have nw: "nwindow a = 0" and f: "sum_a a = 0"
      using a(1) by (simp_all add: fresh_def)
    note i1 = init_first [OF i nw]
    show "M 0 a0"
      using i1 f circ by (auto simp: M_def window_list_def recent_def)
  next
    fix b k a1 a2
    assume rb: "ready b" and sc: "same_config a b" and m: "M k b"
      and le: "(k + 1) * frame_size a \<le> length (concat ps)"
      and cl: "channels_loop b 0 (drop (k * frame_size a) (concat ps)) =
        Inr (a1, drop ((k + 1) * frame_size a) (concat ps))"
      and rp: "report a1 = Inr a2"
    from rb have nb: "\<not> bad_parameters b" and ok: "ring_ok b" by (simp_all add: ready_def)
    note w = valid_word_size [OF nb]
    note c = valid_channels [OF nb]
    from m have mb: "squares b \<noteq> None" "cap_squares b = nat (sint (windowSamples a))"
      "window_list b = recent (cap_squares b) (map (\<lambda>s. s * s) (decode_samples a (k * C) B))"
      "sum_a b = sum_list (window_list b)"
      by (simp_all add: M_def)
    note cw = channels_loop_window [OF ok mb(1) cl [folded B_def] mb(3,4)]
    note fsm = frame_samples [OF rb sc le [folded B_def], folded C_def]
    from cw have w1: "window_list a1 = recent (cap_squares b)
        (map (\<lambda>s. s * s) (decode_samples a (Suc k * C) B))"
      and s1: "sum_a a1 = sum_list (window_list a1)"
      unfolding fsm(1) by simp_all
    from channels_loop_Inr [OF cl w(3)] c
    have st1: "same_setup b a1" by simp
    from report_Inr [OF rp] have st2: "same_setup a1 a2" and q2: "squares a2 = squares a1"
      and n2: "next_a a2 = next_a a1"
      by simp_all
    have e: "cap_squares a2 = cap_squares b" "squares a1 \<noteq> None"
      using st1 st2 mb(1) by (simp_all add: same_setup_def)
    have w2: "window_list a2 = window_list a1" unfolding window_list_def q2 n2 ..
    have "sum_a a2 = sum_a a1"
      using report_effect [OF rp] e(2) by (auto split: if_splits)
    with w1 s1 w2 e q2 mb(2) show "M (Suc k) a2" by (simp add: M_def)
  next
    fix k b x assume "M k b"
    then show "M k (with_pending x b)" by (simp add: M_def)
  qed
  then obtain a' where w: "writes a ps = Some (None, a')"
    and m: "M (length B div frame_size a) a'"
    by (auto simp: B_def)
  from m have "sum_a a' = sum_list (recent (nat (sint (windowSamples a)))
      (map (\<lambda>s. s * s) (stream_samples a B)))"
    by (simp add: M_def stream_samples_def C_def)
  then have "sum_a a' = sum_squares (recent (nat (sint (windowSamples a))) (stream_samples a B))"
    by (simp add: recent_map sum_squares_def)
  with w show ?thesis by (auto simp: B_def)
qed

lemma rms_calls_simps [simp]:
  "rms_calls [] = []" "rms_calls (xs @ ys) = rms_calls xs @ rms_calls ys"
  "rms_calls [RMS s n] = [(s, n)]" "rms_calls [Peak p] = []"
  by (simp_all add: rms_calls_def)

lemma peak_calls_simps [simp]:
  "peak_calls [] = []" "peak_calls (xs @ ys) = peak_calls xs @ peak_calls ys"
  "peak_calls [RMS s n] = []" "peak_calls [Peak p] = [p]"
  by (simp_all add: peak_calls_def)

lemma stream_invariant:
  assumes a: "fresh a" "valid_config a" "no_wrap a" "windowSamples a \<noteq> 0"
      "Window a = ObserveEvery a \<or> 0 <s windowSamples a"
    and ne: "ps \<noteq> []"
    and nz: "reportPeriodSamples a \<noteq> 0"
  shows "\<exists>a'. writes a ps = Some (None, a') \<and>
    rms_calls (observed a') =
      (if ObserveRMS a
       then map (\<lambda>j. (report_sum a (concat ps) j, report_divisor a j))
         [0..<length (concat ps) div frame_size a div nat (sint (reportPeriodSamples a))]
       else []) \<and>
    length (peak_calls (observed a')) =
      (if ObservePeak a
       then length (concat ps) div frame_size a div nat (sint (reportPeriodSamples a))
       else 0) \<and>
    sum_a a' = sum_squares
      (recent
        (if Window a = ObserveEvery a
         then length (concat ps) div frame_size a mod nat (sint (reportPeriodSamples a)) *
           nat (sint (Channels a))
         else nat (sint (windowSamples a)))
        (stream_samples a (concat ps)))"
proof -
  define N where "N = nat (sint (reportPeriodSamples a))"
  define C where "C = nat (sint (Channels a))"
  define B where "B = concat ps"
  define xs where "xs = (\<lambda>k. decode_samples a (k * C) B)"
  note N = period_nat [OF a(2) nz, folded N_def]
  define M where "M = (\<lambda>k b. nobserve b = word_of_nat N \<and>
    countdown b = word_of_nat (N - k mod N) \<and>
    rms_calls (observed b) =
      (if ObserveRMS a then map (\<lambda>j. (report_sum a B j, report_divisor a j)) [0..<k div N]
       else []) \<and>
    length (peak_calls (observed b)) = (if ObservePeak a then k div N else 0) \<and>
    nwindow b = windowSamples a \<and>
    (squares b = None) = (Window a = ObserveEvery a) \<and>
    (Window a \<noteq> ObserveEvery a \<longrightarrow>
      cap_squares b = nat (sint (windowSamples a)) \<and> held b = min (k * C) (cap_squares b) \<and>
      window_list b = recent (cap_squares b) (map (\<lambda>s. s * s) (xs k)) \<and>
      sum_a b = sum_list (window_list b)) \<and>
    (Window a = ObserveEvery a \<longrightarrow> sum_a b = sum_squares (recent (k mod N * C) (xs k))))"
  have "\<exists>a'. writes a ps = Some (None, a') \<and> ready a' \<and> same_config a a' \<and>
    M (length (concat ps) div frame_size a) a' \<and>
    pending a' = drop (length (concat ps) div frame_size a * frame_size a) (concat ps)"
  proof (rule ready_stream_rule [where M = M, OF a ne])
    fix a0 assume i: "init a = Inr a0"
    have nw: "nwindow a = 0" and f: "observed a = []" "squares a = None" "sum_a a = 0"
      using a(1) by (simp_all add: fresh_def)
    note i1 = init_first [OF i nw]
    show "M 0 a0"
      using i1 f N(1,3)
      by (auto simp: M_def held_def xs_def window_list_def recent_def split: if_splits)
  next
    fix b k a1 a2
    assume rb: "ready b" and sc: "same_config a b" and m: "M k b"
      and le: "(k + 1) * frame_size a \<le> length (concat ps)"
      and cl: "channels_loop b 0 (drop (k * frame_size a) (concat ps)) =
        Inr (a1, drop ((k + 1) * frame_size a) (concat ps))"
      and rp: "report a1 = Inr a2"
    from rb have nb: "\<not> bad_parameters b" and ok: "ring_ok b" by (simp_all add: ready_def)
    note w = valid_word_size [OF nb]
    note c = valid_channels [OF nb]
    have cfg: "ObserveRMS b = ObserveRMS a" "ObservePeak b = ObservePeak a"
      "Channels b = Channels a"
      using sc by (simp_all add: same_config_def)
    from channels_loop_Inr [OF cl w(3)] c
    have s1: "same_setup b a1" and c1: "countdown a1 = countdown b"
      and o1: "observed a1 = observed b"
      by simp_all
    from report_Inr [OF rp] have s2: "same_setup a1 a2" and q2: "squares a2 = squares a1"
      and n2: "next_a a2 = next_a a1"
      by simp_all
    have h1: "held a1 = (if squares b = None then 0 else min (held b + C) (cap_squares b))"
      using channels_loop_held [OF ok cl] c by (simp add: C_def cfg)
    have h2: "held a2 = held a1" using q2 by (simp add: held_def)
    have w2: "window_list a2 = window_list a1" unfolding window_list_def q2 n2 ..
    have e1: "ObserveRMS a1 = ObserveRMS a" "ObservePeak a1 = ObservePeak a"
      "nwindow a1 = nwindow b" "nobserve a1 = nobserve b" "cap_squares a1 = cap_squares b"
      "(squares a1 = None) = (squares b = None)"
      using s1 cfg by (simp_all add: same_setup_def)
    have e2: "nwindow a2 = nwindow b" "nobserve a2 = nobserve b"
      "cap_squares a2 = cap_squares b" "(squares a2 = None) = (squares b = None)"
      using s1 s2 by (simp_all add: same_setup_def)
    from m have mb: "nobserve b = word_of_nat N" "countdown b = word_of_nat (N - k mod N)"
      "rms_calls (observed b) =
        (if ObserveRMS a then map (\<lambda>j. (report_sum a B j, report_divisor a j)) [0..<k div N]
         else [])"
      "length (peak_calls (observed b)) = (if ObservePeak a then k div N else 0)"
      "nwindow b = windowSamples a" "(squares b = None) = (Window a = ObserveEvery a)"
      "Window a \<noteq> ObserveEvery a \<longrightarrow>
        cap_squares b = nat (sint (windowSamples a)) \<and> held b = min (k * C) (cap_squares b)"
      and mw: "Window a \<noteq> ObserveEvery a \<longrightarrow>
        window_list b = recent (cap_squares b) (map (\<lambda>s. s * s) (xs k)) \<and>
        sum_a b = sum_list (window_list b)"
      and mr: "Window a = ObserveEvery a \<longrightarrow> sum_a b = sum_squares (recent (k mod N * C) (xs k))"
      by (simp_all add: M_def)
    have hk: "Window a \<noteq> ObserveEvery a \<longrightarrow> held a1 = min (Suc k * C) (cap_squares b)"
      using h1 mb(6,7) by (auto simp: min_def)
    note fsm = frame_samples [OF rb sc le [folded B_def], folded C_def]
    have x1: "xs (Suc k) = xs k @ decode_samples b (nat (sint (Channels b) - 0))
        (drop (k * frame_size a) B)"
      unfolding xs_def using fsm(1) .
    have lx: "length (xs k) = k * C" unfolding xs_def using fsm(2) .
    have wk: "window_list a1 = recent (cap_squares b) (map (\<lambda>s. s * s) (xs (Suc k))) \<and>
        sum_a a1 = sum_list (window_list a1)"
      if "Window a \<noteq> ObserveEvery a"
    proof -
      from that mb(6) have sq: "squares b \<noteq> None" by simp
      from that mw have i: "window_list b = recent (cap_squares b) (map (\<lambda>s. s * s) (xs k))"
        "sum_a b = sum_list (window_list b)"
        by simp_all
      from channels_loop_window [OF ok sq cl [folded B_def] i] show ?thesis
        unfolding x1 by simp
    qed
    have ws: "sum_a a1 = sum_squares (recent cp (xs (Suc k)))"
      if "Window a \<noteq> ObserveEvery a" "cp = cap_squares b" for cp
      using wk [OF that(1)] that(2) by (simp add: recent_map sum_squares_def)
    have rk: "sum_a a1 = sum_squares (recent (k mod N * C + C) (xs (Suc k)))"
      if "Window a = ObserveEvery a"
    proof -
      from that mb(6) have sq: "squares b = None" by simp
      have l: "k mod N * C \<le> length (xs k)"
        unfolding lx by (intro mult_le_mono1) simp
      have "recent (k mod N * C + length (decode_samples b (nat (sint (Channels b) - 0))
          (drop (k * frame_size a) B))) (xs (Suc k)) =
        recent (k mod N * C) (xs k) @ decode_samples b (nat (sint (Channels b) - 0))
          (drop (k * frame_size a) B)"
        unfolding x1 by (rule recent_append [OF l])
      then have "sum_squares (recent (k mod N * C + C) (xs (Suc k))) =
          sum_squares (recent (k mod N * C) (xs k)) +
          sum_squares (decode_samples b (nat (sint (Channels b) - 0)) (drop (k * frame_size a) B))"
        unfolding fsm(3) by simp
      with channels_loop_sum [OF sq cl [folded B_def]] mr that show ?thesis by simp
    qed
    note re0 = report_effect [OF rp, unfolded held_divisor]
    note re = re0 [unfolded c1 o1 e1 mb(1,2)]
    show "M (Suc k) a2"
    proof (cases "Suc k mod N = 0")
      case True
      note cs = countdown_step(3) [OF N(1,2) True]
      have z: "(word_of_nat (N - k mod N) :: int64) - 1 = 0"
        using countdown_step(1) [OF N(1,2), of k] True by simp
      have dv: "(if squares b = None then nwindow b else word_of_nat (held a1)) =
          report_divisor a (k div N)"
        using mb(5,6,7) hk cs
        by (auto simp: report_divisor_def N_def [symmetric] C_def [symmetric])
      have kN: "k mod N * C + C = N * C"
      proof -
        from True N(1) have "Suc (k mod N) = N"
          using mod_Suc [of k N] by (auto split: if_splits)
        then have "(k mod N + 1) * C = N * C" by simp
        then show ?thesis by (simp add: algebra_simps)
      qed
      have sm: "sum_a a1 = report_sum a B (k div N)"
      proof (cases "Window a = ObserveEvery a")
        case True
        from rk [OF True] show ?thesis
          unfolding kN using True cs
          by (simp add: report_sum_def N_def [symmetric] C_def [symmetric] xs_def)
      next
        case False
        from ws [OF False, of "nat (sint (windowSamples a))"] mb(7) False show ?thesis
          using cs
          by (simp add: report_sum_def N_def [symmetric] C_def [symmetric] xs_def)
      qed
      from re z have r: "observed a2 = observed b @
          (if ObserveRMS a then [RMS (sum_a a1)
            (if squares b = None then nwindow b else word_of_nat (held a1))] else []) @
          (if ObservePeak a then [Peak (peak a1)] else [])"
        "countdown a2 = word_of_nat N"
        "sum_a a2 = (if squares b = None then 0 else sum_a a1)"
        by simp_all
      have n0: "N - Suc k mod N = N" "Suc k mod N * C = 0" using True by simp_all
      have common: "nobserve a2 = word_of_nat N" "countdown a2 = word_of_nat (N - Suc k mod N)"
        "nwindow a2 = windowSamples a" "(squares a2 = None) = (Window a = ObserveEvery a)"
        using r(2) mb e2 n0 by simp_all
      have log: "rms_calls (observed a2) =
        (if ObserveRMS a then map (\<lambda>j. (report_sum a B j, report_divisor a j)) [0..<Suc k div N]
         else [])"
        "length (peak_calls (observed a2)) = (if ObservePeak a then Suc k div N else 0)"
        using r(1) mb(3,4) conjunct1 [OF cs] dv sm by simp_all
      have circ: "Window a \<noteq> ObserveEvery a \<longrightarrow>
        cap_squares a2 = nat (sint (windowSamples a)) \<and>
        held a2 = min (Suc k * C) (cap_squares a2) \<and>
        window_list a2 = recent (cap_squares a2) (map (\<lambda>s. s * s) (xs (Suc k))) \<and>
        sum_a a2 = sum_list (window_list a2)"
        using wk hk h2 w2 e2 mb(6,7) r(3) by auto
      have reset: "Window a = ObserveEvery a \<longrightarrow>
          sum_a a2 = sum_squares (recent (Suc k mod N * C) (xs (Suc k)))"
        unfolding n0(2) using r(3) mb(6) by simp
      from common log circ reset show ?thesis unfolding M_def by blast
    next
      case False
      note cs = countdown_step(4) [OF N(1,2) False]
      have z: "(word_of_nat (N - k mod N) :: int64) - 1 \<noteq> 0"
        using countdown_step(1) [OF N(1,2), of k] False by simp
      from re z have r: "observed a2 = observed b"
        "countdown a2 = word_of_nat (N - k mod N) - 1"
        "sum_a a2 = sum_a a1"
        by simp_all
      note r2 = r(2) [unfolded countdown_step(2) [OF N(1,2) False]]
      have kN: "Suc k mod N * C = k mod N * C + C"
      proof -
        from False have "Suc k mod N = Suc (k mod N)"
          using mod_Suc [of k N] by (auto split: if_splits)
        then show ?thesis by simp
      qed
      have common: "nobserve a2 = word_of_nat N" "countdown a2 = word_of_nat (N - Suc k mod N)"
        "nwindow a2 = windowSamples a" "(squares a2 = None) = (Window a = ObserveEvery a)"
        using r2 mb e2 by simp_all
      have log: "rms_calls (observed a2) =
        (if ObserveRMS a then map (\<lambda>j. (report_sum a B j, report_divisor a j)) [0..<Suc k div N]
         else [])"
        "length (peak_calls (observed a2)) = (if ObservePeak a then Suc k div N else 0)"
        using r(1) mb(3,4) cs by simp_all
      have circ: "Window a \<noteq> ObserveEvery a \<longrightarrow>
        cap_squares a2 = nat (sint (windowSamples a)) \<and>
        held a2 = min (Suc k * C) (cap_squares a2) \<and>
        window_list a2 = recent (cap_squares a2) (map (\<lambda>s. s * s) (xs (Suc k))) \<and>
        sum_a a2 = sum_list (window_list a2)"
        using wk hk h2 w2 e2 mb(6,7) r(3) by auto
      have reset: "Window a = ObserveEvery a \<longrightarrow>
          sum_a a2 = sum_squares (recent (Suc k mod N * C) (xs (Suc k)))"
        using r(3) rk kN by simp
      from common log circ reset show ?thesis unfolding M_def by blast
    qed
  next
    fix k b x assume "M k b"
    then show "M k (with_pending x b)" by (simp add: M_def)
  qed
  then obtain a' where w: "writes a ps = Some (None, a')"
    and m: "M (length B div frame_size a) a'"
    by (auto simp: B_def)
  define F where "F = length B div frame_size a"
  from m have 1: "rms_calls (observed a') =
      (if ObserveRMS a then map (\<lambda>j. (report_sum a B j, report_divisor a j)) [0..<F div N]
       else [])"
    "length (peak_calls (observed a')) = (if ObservePeak a then F div N else 0)"
    and mw: "Window a \<noteq> ObserveEvery a \<longrightarrow>
        cap_squares a' = nat (sint (windowSamples a)) \<and>
        window_list a' = recent (cap_squares a') (map (\<lambda>s. s * s) (xs F)) \<and>
        sum_a a' = sum_list (window_list a')"
    and mr: "Window a = ObserveEvery a \<longrightarrow> sum_a a' = sum_squares (recent (F mod N * C) (xs F))"
    by (simp_all add: M_def F_def)
  have x: "xs F = stream_samples a B"
    by (simp add: xs_def stream_samples_def F_def C_def)
  have 2: "sum_a a' = sum_squares (recent (if Window a = ObserveEvery a then F mod N * C
      else nat (sint (windowSamples a))) (stream_samples a B))"
    using mw mr unfolding x by (auto simp: recent_map sum_squares_def)
  from w 1 2 show ?thesis
    unfolding F_def B_def N_def C_def by blast
qed

lemma recent_min: "recent (min (length xs) n) xs = recent n xs"
  by (simp add: recent_def min_def)

lemma stream_samples_Nil [simp]: "stream_samples a [] = []"
  by (simp add: stream_samples_def)

section \<open>The claims\<close>

text \<open>
  C1 (as amended).  Under a configuration that passes validation, the raw value of a decoded
  word is below \<open>2 ^ wordSize\<close>.  When the configuration is signed and the top bit of
  the raw value is set, the decoded sample is the two's-complement negation of the bit
  pattern, \<open>2 ^ wordSize - raw\<close>: the (positive) magnitude of the two's-complement value
  \<open>raw - 2 ^ wordSize\<close>.  When it is signed and the top bit is clear, the sample is
  \<open>raw\<close>.  When it is unsigned, the sample is \<open>raw - 2 ^ (wordSize - 1)\<close>.
\<close>

theorem decoded_sample_value:
  assumes "\<not> bad_parameters a"
    and "read_word (bigshift a) (littleshift a) (unat (WordSize a)) 0 0 p = Some (raw, p')"
  shows "uint raw < 2 ^ unat (WordSize a) \<and>
     sint (sign_convert a raw) =
       (if Signed a then
          (if bit raw (unat (WordSize a) - 1) then 2 ^ unat (WordSize a) - uint raw
           else uint raw)
        else uint raw - 2 ^ (unat (WordSize a) - 1))"
  using assms by (rule sign_convert_sint)

theorem decoded_sample_value_witness:
  "\<not> bad_parameters mono8 \<and>
   read_word (bigshift mono8) (littleshift mono8) (unat (WordSize mono8)) 0 0 [254, 7] =
     Some (254, [7]) \<and>
   sint (sign_convert mono8 254) = 2"
proof -
  have h1: "\<not> bad_parameters mono8" by code_simp
  have h2: "read_word (bigshift mono8) (littleshift mono8) (unat (WordSize mono8)) 0 0
      [254, 7] = Some (254, [7])" by code_simp
  have h3: "Signed mono8" "unat (WordSize mono8) = 8"
    by (simp_all add: mono8_def new_analyzer_def)
  have h4: "bit (254 :: int64) 7" by code_simp
  show ?thesis
    using h1 h2 h3 h4 decoded_sample_value [OF h1 h2] by simp
qed

text \<open>The claim as stated fails: the signed byte \<open>0xFF\<close> decodes to \<open>1\<close>, which is
  neither negative nor \<open>255 - 2 ^ 8\<close>.\<close>

theorem decoded_sample_negative_counterexample:
  "Signed mono8 \<and> unat (WordSize mono8) = 8 \<and>
   read_word (bigshift mono8) (littleshift mono8) (unat (WordSize mono8)) 0 0 [255] =
     Some (255, []) \<and>
   bit (255 :: int64) 7 \<and>
   sint (sign_convert mono8 255) = 1 \<and>
   \<not> sint (sign_convert mono8 255) < 0 \<and>
   sint (sign_convert mono8 255) \<noteq> 255 - 2 ^ 8"
proof -
  have "Signed mono8" "unat (WordSize mono8) = 8"
    by (simp_all add: mono8_def new_analyzer_def)
  moreover have "read_word (bigshift mono8) (littleshift mono8) (unat (WordSize mono8)) 0 0
      [255] = Some (255, [])" by code_simp
  moreover have "bit (255 :: int64) 7" by code_simp
  moreover have "sign_convert mono8 255 = 1" by code_simp
  ultimately show ?thesis by simp
qed




text \<open>
  C3 (as amended).  Under a valid configuration where nothing wraps around (the product
  \<open>sampleRate * observeEvery\<close> fits in an \<^verbatim>\<open>int64\<close>, the frame size does not wrap
  around, \<open>windowSamples\<close> as the code computes it is not 0 and, when the window
  differs from the report interval, is positive) and with
  \<open>reportPeriodSamples = sampleRate * observeEvery / 1 second - 1 \<ge> 1\<close>: after any
  sequence of \<^verbatim>\<open>Write\<close> calls on a new analyzer, every call has returned without error
  and each observer that is set has been called exactly once per \<open>reportPeriodSamples\<close>
  whole frames written so far (a frame is one sample of every channel), that is
  \<open>frames div reportPeriodSamples\<close> times.  The reports are made inside the calls:
  the count holds when each call returns.
\<close>

theorem one_report_per_period:
  assumes "fresh a" "spec_valid a" "period_fits a" "1 \<le> reportPeriodSamples_spec a"
    "no_wrap a" "windowSamples a \<noteq> 0" "Window a = ObserveEvery a \<or> 0 <s windowSamples a"
  shows "\<exists>a'. writes a ps = Some (None, a') \<and>
    length (rms_calls (observed a')) =
      (if ObserveRMS a
       then length (concat ps) div frame_size a div nat (reportPeriodSamples_spec a) else 0) \<and>
    length (peak_calls (observed a')) =
      (if ObservePeak a
       then length (concat ps) div frame_size a div nat (reportPeriodSamples_spec a) else 0)"
proof (cases "ps = []")
  case True
  with assms(1) show ?thesis by (simp add: fresh_def)
next
  case False
  have v: "valid_config a" using assms(2,3) by (simp add: valid_config_spec)
  have e: "sint (reportPeriodSamples a) = reportPeriodSamples_spec a"
    using assms(3) by (rule reportPeriodSamples_exact)
  have nz: "reportPeriodSamples a \<noteq> 0"
    using e assms(4) by auto
  from stream_invariant [OF assms(1) v assms(5-7) False nz] obtain a' where
    "writes a ps = Some (None, a')"
    "rms_calls (observed a') =
      (if ObserveRMS a
       then map (\<lambda>j. (report_sum a (concat ps) j, report_divisor a j))
         [0..<length (concat ps) div frame_size a div nat (sint (reportPeriodSamples a))]
       else [])"
    "length (peak_calls (observed a')) =
      (if ObservePeak a
       then length (concat ps) div frame_size a div nat (sint (reportPeriodSamples a))
       else 0)"
    by blast
  then show ?thesis unfolding e by (intro exI [of _ a']) simp
qed

theorem one_report_per_period_witness:
  "fresh stereo8 \<and> spec_valid stereo8 \<and> period_fits stereo8 \<and>
   1 \<le> reportPeriodSamples_spec stereo8 \<and> no_wrap stereo8 \<and> windowSamples stereo8 \<noteq> 0 \<and>
   (Window stereo8 = ObserveEvery stereo8 \<or> 0 <s windowSamples stereo8) \<and>
   (\<exists>a'. writes stereo8 [[1, 2, 3], [4, 5, 6, 7, 8, 9, 10, 11]] = Some (None, a') \<and>
     length (rms_calls (observed a')) = 2 \<and> length (peak_calls (observed a')) = 2)"
proof -
  have h: "fresh stereo8" "spec_valid stereo8" "period_fits stereo8"
    "1 \<le> reportPeriodSamples_spec stereo8" "no_wrap stereo8" "windowSamples stereo8 \<noteq> 0"
    "Window stereo8 = ObserveEvery stereo8 \<or> 0 <s windowSamples stereo8"
    by code_simp+
  have e: "ObserveRMS stereo8" "ObservePeak stereo8"
    "length (concat [[1, 2, 3], [4, 5, 6, 7, 8, 9, 10, 11 :: byte]]) div frame_size stereo8 div
       nat (reportPeriodSamples_spec stereo8) = 2"
    by code_simp+
  from one_report_per_period [OF h, of "[[1, 2, 3], [4, 5, 6, 7, 8, 9, 10, 11]]"]
  show ?thesis unfolding e using h e(1,2) by (simp only: if_True simp_thms)
qed

text \<open>The claim as stated counts decoded samples, the code counts frames (line 289 is
  outside the loop over the channels).  Under \<open>stereo8\<close>, \<open>reportPeriodSamples\<close>
  is 2: a stream of two samples makes no report, and a stream of four samples makes
  one report, not two.\<close>

theorem report_period_counterexample:
  "fresh stereo8 \<and> spec_valid stereo8 \<and> period_fits stereo8 \<and>
   reportPeriodSamples_spec stereo8 = 2 \<and>
   stream_samples stereo8 [1, 1] = [1, 1] \<and>
   map_option (\<lambda>(e, a). (e, observed a)) (writes stereo8 [[1, 1]]) = Some (None, []) \<and>
   stream_samples stereo8 [1, 1, 1, 1] = [1, 1, 1, 1] \<and>
   map_option (\<lambda>(e, a). (e, observed a)) (writes stereo8 [[1, 1, 1, 1]]) =
     Some (None, [RMS 4 6, Peak 1])"
proof -
  have "fresh stereo8" "spec_valid stereo8" "period_fits stereo8"
   "reportPeriodSamples_spec stereo8 = 2"
   "stream_samples stereo8 [1, 1] = [1, 1]"
   "map_option (\<lambda>(e, a). (e, observed a)) (writes stereo8 [[1, 1]]) = Some (None, [])"
   "stream_samples stereo8 [1, 1, 1, 1] = [1, 1, 1, 1]"
   "map_option (\<lambda>(e, a). (e, observed a)) (writes stereo8 [[1, 1, 1, 1]]) =
     Some (None, [RMS 4 6, Peak 1])"
    by code_simp+
  then show ?thesis by simp
qed

text \<open>
  C4 (as amended).  Under a valid configuration where nothing wraps around (the frame
  size does not, \<open>windowSamples\<close> as the code computes it is not 0 and, when the window
  differs from the report interval, is positive; in reset mode \<open>reportPeriodSamples\<close>
  is not 0), after any sequence of \<^verbatim>\<open>Write\<close> calls on a new analyzer every call has
  returned without error and the running sum is, in \<^verbatim>\<open>int64\<close> arithmetic: in
  circular-buffer mode, the sum of the squares of the most recent
  \<open>min samplesSeen windowSamples\<close> decoded samples; in reset mode, the sum of the
  squares of the samples decoded since the last report, which are the samples of the
  last \<open>frames mod reportPeriodSamples\<close> frames.  (The analyzer can be looked at
  only when a \<^verbatim>\<open>Write\<close> has returned and when an observer is called; the sum that a
  report passes on is \<open>report_sum\<close>, in C2.)
\<close>

theorem running_sum_window:
  assumes "fresh a" "valid_config a" "no_wrap a" "windowSamples a \<noteq> 0"
    "Window a = ObserveEvery a \<or> 0 <s windowSamples a"
    "Window a = ObserveEvery a \<longrightarrow> reportPeriodSamples a \<noteq> 0"
  shows "\<exists>a'. writes a ps = Some (None, a') \<and>
    sum_a a' = sum_squares
      (recent
        (if Window a = ObserveEvery a
         then length (concat ps) div frame_size a mod nat (sint (reportPeriodSamples a)) *
           nat (sint (Channels a))
         else min (length (stream_samples a (concat ps))) (nat (sint (windowSamples a))))
        (stream_samples a (concat ps)))"
proof (cases "ps = []")
  case True
  with assms(1) show ?thesis by (simp add: fresh_def recent_def)
next
  case False
  show ?thesis
  proof (cases "Window a = ObserveEvery a")
    case True
    with assms(6) have nz: "reportPeriodSamples a \<noteq> 0" by simp
    from stream_invariant [OF assms(1-5) False nz] True show ?thesis by auto
  next
    case circ: False
    from stream_window [OF assms(1-5) False circ] circ show ?thesis
      by (simp add: recent_min)
  qed
qed

theorem running_sum_window_witness:
  "fresh mono8 \<and> valid_config mono8 \<and> no_wrap mono8 \<and> windowSamples mono8 \<noteq> 0 \<and>
   Window mono8 = ObserveEvery mono8 \<and> reportPeriodSamples mono8 \<noteq> 0 \<and>
   stream_samples mono8 (concat [[3, 3], [255, 2, 4]]) = [3, 3, 1, 2, 4] \<and>
   (\<exists>a'. writes mono8 [[3, 3], [255, 2, 4]] = Some (None, a') \<and> sum_a a' = 16) \<and>
   fresh stereo8_long \<and> valid_config stereo8_long \<and> no_wrap stereo8_long \<and>
   windowSamples stereo8_long \<noteq> 0 \<and> 0 <s windowSamples stereo8_long \<and>
   stream_samples stereo8_long (concat [[1, 2, 3, 4], [5, 6, 7, 8, 9]]) = [1, 2, 3, 4, 5, 6, 7, 8] \<and>
   (\<exists>a'. writes stereo8_long [[1, 2, 3, 4], [5, 6, 7, 8, 9]] = Some (None, a') \<and> sum_a a' = 204)"
proof -
  have m: "fresh mono8" "valid_config mono8" "no_wrap mono8" "windowSamples mono8 \<noteq> 0"
    "Window mono8 = ObserveEvery mono8 \<or> 0 <s windowSamples mono8"
    "Window mono8 = ObserveEvery mono8 \<longrightarrow> reportPeriodSamples mono8 \<noteq> 0"
    by code_simp+
  have m': "Window mono8 = ObserveEvery mono8" "reportPeriodSamples mono8 \<noteq> 0"
    "stream_samples mono8 (concat [[3, 3], [255, 2, 4]]) = [3, 3, 1, 2, 4]"
    by code_simp+
  have me: "sum_squares
      (recent
        (if Window mono8 = ObserveEvery mono8
         then length (concat [[3, 3], [255, 2, 4 :: byte]]) div frame_size mono8 mod
           nat (sint (reportPeriodSamples mono8)) * nat (sint (Channels mono8))
         else min (length (stream_samples mono8 (concat [[3, 3], [255, 2, 4]])))
           (nat (sint (windowSamples mono8))))
        (stream_samples mono8 (concat [[3, 3], [255, 2, 4]]))) = 16"
    by code_simp
  have h: "fresh stereo8_long" "valid_config stereo8_long" "no_wrap stereo8_long"
    "windowSamples stereo8_long \<noteq> 0"
    "Window stereo8_long = ObserveEvery stereo8_long \<or> 0 <s windowSamples stereo8_long"
    "Window stereo8_long = ObserveEvery stereo8_long \<longrightarrow> reportPeriodSamples stereo8_long \<noteq> 0"
    by code_simp+
  have h': "0 <s windowSamples stereo8_long"
    "stream_samples stereo8_long (concat [[1, 2, 3, 4], [5, 6, 7, 8, 9]]) =
      [1, 2, 3, 4, 5, 6, 7, 8]"
    by code_simp+
  have e: "sum_squares
      (recent
        (if Window stereo8_long = ObserveEvery stereo8_long
         then length (concat [[1, 2, 3, 4], [5, 6, 7, 8, 9 :: byte]]) div frame_size stereo8_long mod
           nat (sint (reportPeriodSamples stereo8_long)) * nat (sint (Channels stereo8_long))
         else min (length (stream_samples stereo8_long (concat [[1, 2, 3, 4], [5, 6, 7, 8, 9]])))
           (nat (sint (windowSamples stereo8_long))))
        (stream_samples stereo8_long (concat [[1, 2, 3, 4], [5, 6, 7, 8, 9]]))) = 204"
    by code_simp
  from running_sum_window [OF m, of "[[3, 3], [255, 2, 4]]"]
  have 1: "\<exists>a'. writes mono8 [[3, 3], [255, 2, 4]] = Some (None, a') \<and> sum_a a' = 16"
    unfolding me .
  from running_sum_window [OF h, of "[[1, 2, 3, 4], [5, 6, 7, 8, 9]]"]
  have 2: "\<exists>a'. writes stereo8_long [[1, 2, 3, 4], [5, 6, 7, 8, 9]] = Some (None, a') \<and>
      sum_a a' = 204"
    unfolding e .
  from m(1-4) m' 1 h(1-4) h' 2 show ?thesis by (simp only: simp_thms)
qed

text \<open>The claim as stated fails in reset mode, where a report sets the sum to 0
  (line 302).  Under \<open>mono8\<close>, after the samples 3 and 3 the sum of the squares of the
  most recent \<open>min 2 3\<close> samples is 18, and the running sum is 0.\<close>

theorem running_sum_counterexample:
  "fresh mono8 \<and> valid_config mono8 \<and> Window mono8 = ObserveEvery mono8 \<and>
   windowSamples mono8 = 3 \<and> stream_samples mono8 [3, 3] = [3, 3] \<and>
   sum_squares (recent (min (length (stream_samples mono8 [3, 3])) (nat (sint (windowSamples mono8))))
     (stream_samples mono8 [3, 3])) = 18 \<and>
   map_option (\<lambda>(e, a). (e, sum_a a)) (writes mono8 [[3, 3]]) = Some (None, 0)"
proof -
  have "fresh mono8" "valid_config mono8" "Window mono8 = ObserveEvery mono8"
   "windowSamples mono8 = 3" "stream_samples mono8 [3, 3] = [3, 3]"
   "sum_squares (recent (min (length (stream_samples mono8 [3, 3])) (nat (sint (windowSamples mono8))))
     (stream_samples mono8 [3, 3])) = 18"
   "map_option (\<lambda>(e, a). (e, sum_a a)) (writes mono8 [[3, 3]]) = Some (None, 0)"
    by code_simp+
  then show ?thesis by simp
qed

text \<open>
  C5 (as amended).  Under a valid configuration where the frame size
  \<^verbatim>\<open>a.Channels*int(a.WordSize)\<close> does not wrap around, \<open>windowSamples\<close> as the code
  computes it is not 0 and, when the window differs from the report interval, is
  positive: at any point of a stream written to a new analyzer, \<^verbatim>\<open>Write(b1)\<close>
  followed by \<^verbatim>\<open>Write(b2)\<close> and the single call \<^verbatim>\<open>Write(b1 ++ b2)\<close>, each followed by
  the rest of the stream, both return without error and leave the same analyzer.  That
  analyzer is the one obtained by decoding exactly the whole frames of the
  concatenation of all bytes written, in order, one frame at a time, and its pending
  bytes are the bytes after the last whole frame, fewer than one frame: no byte is
  dropped, nothing is decoded from an incomplete frame, and the leftover is carried
  over verbatim.  The log of observer calls is part of the analyzer.
\<close>

theorem write_split_equivalence:
  assumes "fresh a" "valid_config a" "no_wrap a" "windowSamples a \<noteq> 0"
    "Window a = ObserveEvery a \<or> 0 <s windowSamples a"
  shows "\<exists>c. whole_stream a (concat ps @ b1 @ b2 @ concat qs) = Inr c \<and>
    writes a (ps @ [b1, b2] @ qs) =
      Some (None, with_pending (leftover a (concat ps @ b1 @ b2 @ concat qs)) c) \<and>
    writes a (ps @ [b1 @ b2] @ qs) =
      Some (None, with_pending (leftover a (concat ps @ b1 @ b2 @ concat qs)) c) \<and>
    length (leftover a (concat ps @ b1 @ b2 @ concat qs)) < frame_size a"
proof -
  have pos: "0 < frame_size a"
    using assms(2) by (simp add: frame_size_pos bad_parameters_iff)
  from writes_whole_frames [OF assms, of "ps @ [b1, b2] @ qs"]
  obtain c where 1: "whole_stream a (concat ps @ b1 @ b2 @ concat qs) = Inr c"
    "writes a (ps @ [b1, b2] @ qs) =
      Some (None, with_pending (leftover a (concat ps @ b1 @ b2 @ concat qs)) c)"
    by auto
  from writes_whole_frames [OF assms, of "ps @ [b1 @ b2] @ qs"] 1(1)
  have 2: "writes a (ps @ [b1 @ b2] @ qs) =
      Some (None, with_pending (leftover a (concat ps @ b1 @ b2 @ concat qs)) c)"
    by auto
  from 1 2 leftover_short [OF pos] show ?thesis by blast
qed

theorem write_split_equivalence_witness:
  "fresh stereo8_long \<and> valid_config stereo8_long \<and> no_wrap stereo8_long \<and>
   windowSamples stereo8_long \<noteq> 0 \<and>
   (Window stereo8_long = ObserveEvery stereo8_long \<or> 0 <s windowSamples stereo8_long) \<and>
   leftover stereo8_long (concat [[3]] @ [3, 255] @ [4, 5, 6] @ concat [[7]]) = [7] \<and>
   (\<exists>c. whole_stream stereo8_long (concat [[3]] @ [3, 255] @ [4, 5, 6] @ concat [[7]]) = Inr c \<and>
     writes stereo8_long ([[3]] @ [[3, 255], [4, 5, 6]] @ [[7]]) = Some (None, with_pending [7] c) \<and>
     writes stereo8_long ([[3]] @ [[3, 255] @ [4, 5, 6]] @ [[7]]) = Some (None, with_pending [7] c))"
proof -
  have h: "fresh stereo8_long" "valid_config stereo8_long" "no_wrap stereo8_long"
    "windowSamples stereo8_long \<noteq> 0"
    "Window stereo8_long = ObserveEvery stereo8_long \<or> 0 <s windowSamples stereo8_long"
    by code_simp+
  have l: "leftover stereo8_long (concat [[3]] @ [3, 255] @ [4, 5, 6] @ concat [[7]]) = [7]"
    by code_simp
  from write_split_equivalence [OF h, of "[[3]]" "[3, 255]" "[4, 5, 6]" "[[7]]"]
  obtain c where
    "whole_stream stereo8_long (concat [[3]] @ [3, 255] @ [4, 5, 6] @ concat [[7]]) = Inr c"
    "writes stereo8_long ([[3]] @ [[3, 255], [4, 5, 6]] @ [[7]]) =
      Some (None, with_pending
        (leftover stereo8_long (concat [[3]] @ [3, 255] @ [4, 5, 6] @ concat [[7]])) c)"
    "writes stereo8_long ([[3]] @ [[3, 255] @ [4, 5, 6]] @ [[7]]) =
      Some (None, with_pending
        (leftover stereo8_long (concat [[3]] @ [3, 255] @ [4, 5, 6] @ concat [[7]])) c)"
    by blast
  with h l show ?thesis by (simp only: simp_thms) blast
qed

text \<open>The claim as stated fails under \<open>wrapped_window\<close>, which passes validation:
  \<open>windowSamples\<close> is \<open>4 * 2 ^ 31 * 2 ^ 31 = 2 ^ 64\<close>, which wraps around to 0, the
  value that marks an analyzer not yet set up.  The second of two calls sets the
  countdown again, the single call does not.\<close>

theorem write_split_counterexample:
  "valid_config wrapped_window \<and> windowSamples wrapped_window = 0 \<and>
   map_option (\<lambda>(e, a). (e, countdown a))
     (writes wrapped_window [[1, 1, 1, 1], [1, 1, 1, 1]]) = Some (None, 4611686016) \<and>
   map_option (\<lambda>(e, a). (e, countdown a))
     (writes wrapped_window [[1, 1, 1, 1] @ [1, 1, 1, 1]]) = Some (None, 4611686015) \<and>
   writes wrapped_window [[1, 1, 1, 1], [1, 1, 1, 1]] \<noteq>
     writes wrapped_window [[1, 1, 1, 1] @ [1, 1, 1, 1]]"
  by code_simp

text \<open>The condition on the sign of \<open>windowSamples\<close> is needed: with a negative window
  that differs from the report interval, validation passes, nothing wraps around, and
  the first call panics in \<^verbatim>\<open>make\<close> (line 238).\<close>

lemma negwin_make_panic:
  "fresh negwin \<and> valid_config negwin \<and> no_wrap negwin \<and> windowSamples negwin = - 6 \<and>
   map_option (\<lambda>(n, e, a). (n, e)) (Write negwin [1]) = Some (0, Some PanicMakeSlice)"
proof -
  have "fresh negwin" "valid_config negwin" "no_wrap negwin" "windowSamples negwin = - 6"
    "map_option (\<lambda>(n, e, a). (n, e)) (Write negwin [1]) = Some (0, Some PanicMakeSlice)"
    by code_simp+
  then show ?thesis by simp
qed

text \<open>
  C6 (as amended).  On the first call (the private fields have their zero value), and
  when the product \<open>sampleRate * observeEvery\<close> fits in an \<^verbatim>\<open>int64\<close>, \<^verbatim>\<open>Write\<close>
  returns the error \<^verbatim>\<open>ErrBadParameters\<close> if and only if the configuration violates
  one of: channels \<open>\<ge> 1\<close>; word size \<open>> 0\<close>, a multiple of 8 and \<open>< 64\<close>; sample
  rate \<open>\<ge> 1\<close>; \<open>reportPeriodSamples \<ge> 0\<close>, where \<open>reportPeriodSamples\<close> is
  \<open>sampleRate * observeEvery / 1 second - 1\<close> over the integers.  In that case it
  returns 0 bytes accepted and leaves the analyzer as it was: nothing is decoded and no
  observer is called.  (Whatever the product, the lemma \<open>first_call_validation\<close>
  gives the same with \<open>reportPeriodSamples\<close> as line 233 computes it.)
\<close>

theorem bad_parameters_rejected:
  assumes "fresh a" "period_fits a"
  shows "((\<exists>n a'. Write a p = Some (n, Some ErrBadParameters, a')) \<longleftrightarrow> \<not> spec_valid a) \<and>
    (\<not> spec_valid a \<longrightarrow> Write a p = Some (0, Some ErrBadParameters, a))"
  using first_call_validation [OF assms(1), of p] valid_config_spec [OF assms(2)] by simp

theorem bad_parameters_rejected_witness:
  "fresh no_channels \<and> period_fits no_channels \<and> \<not> spec_valid no_channels \<and>
   Write no_channels [3, 3] = Some (0, Some ErrBadParameters, no_channels) \<and>
   fresh mono8 \<and> period_fits mono8 \<and> spec_valid mono8 \<and>
   \<not> (\<exists>n a'. Write mono8 [3, 3] = Some (n, Some ErrBadParameters, a'))"
proof -
  have f: "fresh no_channels" "period_fits no_channels" "fresh mono8" "period_fits mono8"
    by code_simp+
  have v: "\<not> spec_valid no_channels" "spec_valid mono8" by code_simp+
  show ?thesis
    using f v bad_parameters_rejected [OF f(1,2), of "[3, 3]"]
      bad_parameters_rejected [OF f(3,4), of "[3, 3]"]
    by simp
qed

text \<open>The claim as stated fails when the product wraps around.  Under \<open>bigrate\<close> the
  interval holds \<open>2 ^ 63 / 10 ^ 9\<close> samples, so that all four conditions hold, but
  line 233 computes the product \<open>2 ^ 63\<close> as \<open>- (2 ^ 63)\<close> and the first call returns
  \<^verbatim>\<open>ErrBadParameters\<close>.\<close>

theorem bad_parameters_overflow_counterexample:
  "fresh bigrate \<and> spec_valid bigrate \<and> reportPeriodSamples_spec bigrate = 9223372035 \<and>
   Write bigrate [1] = Some (0, Some ErrBadParameters, bigrate)"
proof -
  have "fresh bigrate" "spec_valid bigrate" "reportPeriodSamples_spec bigrate = 9223372035"
    "Write bigrate [1] = Some (0, Some ErrBadParameters, bigrate)"
    by code_simp+
  then show ?thesis by simp
qed

text \<open>In the other direction, the negative interval of \<open>negative_interval\<close> violates
  \<open>reportPeriodSamples \<ge> 0\<close>, but the product wraps around to \<open>2 ^ 33\<close>: the first
  call accepts the configuration and reports after seven frames.\<close>

lemma negative_interval_accepted:
  "fresh negative_interval \<and> \<not> spec_valid negative_interval \<and>
   reportPeriodSamples_spec negative_interval = - 18446744066 \<and>
   reportPeriodSamples negative_interval = 7 \<and>
   map_option (\<lambda>(n, e, a). (n, e, observed a)) (Write negative_interval [1, 1, 1, 1, 1, 1, 1]) =
     Some (7, None, [RMS 7 8, Peak 1])"
proof -
  have "fresh negative_interval" "\<not> spec_valid negative_interval"
    "reportPeriodSamples_spec negative_interval = - 18446744066"
    "reportPeriodSamples negative_interval = 7"
    "map_option (\<lambda>(n, e, a). (n, e, observed a)) (Write negative_interval [1, 1, 1, 1, 1, 1, 1]) =
     Some (7, None, [RMS 7 8, Peak 1])"
    by code_simp+
  then show ?thesis by simp
qed

text \<open>
  C7 (as amended).  For every decoded sample \<open>s\<close>, the tracked peak becomes
  \<open>max peak \<bar>s\<bar>\<close> (the peak is never negative: it starts at 0).  A report that
  includes a peak observation (the countdown reaches zero and a peak observer is set)
  passes the peak to the observer and resets it to 0; any other pass through the report
  step leaves the peak as it is.
\<close>

theorem peak_tracking:
  "(\<not> bad_parameters a \<and>
    read_word (bigshift a) (littleshift a) (unat (WordSize a)) 0 0 p = Some (raw, p') \<and>
    add_sample a (sign_convert a raw) = Inr a' \<and> 0 \<le>s peak a \<longrightarrow>
      sint (peak a') = max (sint (peak a)) \<bar>sint (sign_convert a raw)\<bar>) \<and>
   (report b = Inr b' \<longrightarrow>
      (if countdown b = 1 \<and> ObservePeak b
       then peak b' = 0 \<and> (\<exists>pre. observed b' = observed b @ pre @ [Peak (peak b)])
       else peak b' = peak b))"
proof (intro conjI impI)
  assume h: "\<not> bad_parameters a \<and>
    read_word (bigshift a) (littleshift a) (unat (WordSize a)) 0 0 p = Some (raw, p') \<and>
    add_sample a (sign_convert a raw) = Inr a' \<and> 0 \<le>s peak a"
  then have "- (2 ^ 62) \<le> sint (sign_convert a raw)"
    by (intro decoded_sample_range(1)) auto
  then have "- (2 ^ 63) < sint (sign_convert a raw)" by simp
  moreover from h have "0 \<le> sint (peak a)" by (simp add: word_sle_eq)
  ultimately show "sint (peak a') = max (sint (peak a)) \<bar>sint (sign_convert a raw)\<bar>"
    using h add_sample_peak [of a "sign_convert a raw" a'] by (simp add: track_peak_max)
next
  assume "report b = Inr b'"
  then show "if countdown b = 1 \<and> ObservePeak b
       then peak b' = 0 \<and> (\<exists>pre. observed b' = observed b @ pre @ [Peak (peak b)])
       else peak b' = peak b"
    by (rule report_peak)
qed

theorem peak_tracking_witness:
  "\<not> bad_parameters mono8 \<and>
   read_word (bigshift mono8) (littleshift mono8) (unat (WordSize mono8)) 0 0 [253] =
     Some (253, []) \<and>
   add_sample mono8 (sign_convert mono8 253) = Inr (mono8\<lparr>sum_a := 9, peak := 3\<rparr>) \<and>
   0 \<le>s peak mono8 \<and>
   sint (peak (mono8\<lparr>sum_a := 9, peak := 3\<rparr>)) = 3 \<and>
   report mono8_due =
     Inr (mono8_due\<lparr>sum_a := 0, countdown := 2, peak := 0,
            observed := [RMS 18 3, Peak 3]\<rparr>) \<and>
   countdown mono8_due = 1 \<and> ObservePeak mono8_due \<and>
   peak (mono8_due\<lparr>sum_a := 0, countdown := 2, peak := 0,
            observed := [RMS 18 3, Peak 3]\<rparr>) = 0"
proof -
  have h1: "\<not> bad_parameters mono8" by code_simp
  have h2: "read_word (bigshift mono8) (littleshift mono8) (unat (WordSize mono8)) 0 0
      [253] = Some (253, [])" by code_simp
  have h3: "add_sample mono8 (sign_convert mono8 253) =
      Inr (mono8\<lparr>sum_a := 9, peak := 3\<rparr>)" by code_simp
  have h4: "0 \<le>s peak mono8" by code_simp
  have h5: "report mono8_due =
      Inr (mono8_due\<lparr>sum_a := 0, countdown := 2, peak := 0,
             observed := [RMS 18 3, Peak 3]\<rparr>)" by code_simp
  have h6: "countdown mono8_due = 1" "ObservePeak mono8_due" by code_simp+
  show ?thesis
    using h1 h2 h3 h4 h5 h6
      peak_tracking [of mono8 "[253]" 253 "[]" "mono8\<lparr>sum_a := 9, peak := 3\<rparr>"
        mono8_due "mono8_due\<lparr>sum_a := 0, countdown := 2, peak := 0,
             observed := [RMS 18 3, Peak 3]\<rparr>"]
    by simp
qed

text \<open>The claim as stated fails when only the RMS observer is set: two frames make a
  report (the RMS observer is called and the countdown starts again at 2), and the peak
  is still 3 after it.\<close>

theorem peak_not_reset_counterexample:
  "map_option (\<lambda>(n, e, a). (n, e, observed a, countdown a, peak a))
     (Write mono8_rms [3, 3]) = Some (2, None, [RMS 18 3], 2, 3)"
  by code_simp





text \<open>
  C9 (as amended).  For every configuration that passes the validation of the first
  call and has \<open>window = observeEvery\<close> or \<open>windowSamples \<ge> 1\<close>, with
  \<open>windowSamples\<close> the \<^verbatim>\<open>int64\<close> value that line 236 computes, every \<^verbatim>\<open>Write\<close> of
  every stream written to a new analyzer returns, and no index into the buffer of
  squares is out of range (nor does \<^verbatim>\<open>make\<close> panic).  The panics that remain are an
  index out of range in the input bytes (line 260) and a division by zero in the RMS
  report (line 295), and they need wrap-around: when the frame size
  \<^verbatim>\<open>a.Channels*int(a.WordSize)\<close> does not wrap around and \<open>windowSamples\<close> is not 0,
  no call panics at all and every \<^verbatim>\<open>Write\<close> is total.  (By \<open>windowSamples_exact\<close>
  the computed \<open>windowSamples\<close> is \<open>channels * sampleRate * window / 1 second\<close>
  whenever the products fit in an \<^verbatim>\<open>int64\<close>.)
\<close>

theorem squares_index_in_bounds:
  assumes "fresh a" "valid_config a"
    and "Window a = ObserveEvery a \<or> 1 \<le>s windowSamples a"
  shows "\<exists>e a'. writes a ps = Some (e, a') \<and>
    e \<noteq> Some PanicIndexSquares \<and> e \<noteq> Some PanicMakeSlice \<and> e \<noteq> Some ErrBadParameters \<and>
    (no_wrap a \<and> windowSamples a \<noteq> 0 \<longrightarrow> e = None)"
proof -
  define K where "K = (\<lambda>(b :: Analyzer) (qs :: byte list list).
    \<not> bad_parameters b \<and> same_config a b \<and>
    (nwindow b \<noteq> 0 \<longrightarrow> nwindow b = windowSamples b \<and> ring_ok b) \<and>
    (Window b = ObserveEvery b \<longrightarrow> squares b = None))"
  have "\<exists>e a'. writes a ps = Some (e, a') \<and>
    (case e of Some er \<Rightarrow> panic_cause a er | None \<Rightarrow> True)"
  proof (rule writes_rule [where K = K])
    show "K a ps"
      using assms(1,2) by (simp add: K_def fresh_def bad_parameters_iff ring_ok_def)
  next
    fix b q qs
    assume "K b (q # qs)"
    then have k: "\<not> bad_parameters b" "same_config a b"
      "nwindow b \<noteq> 0 \<longrightarrow> nwindow b = windowSamples b \<and> ring_ok b"
      "Window b = ObserveEvery b \<longrightarrow> squares b = None"
      by (simp_all add: K_def)
    have m: "Window b = ObserveEvery b \<or> 1 \<le>s windowSamples b"
      using assms(3) k(2) same_config_consts(5) [OF k(2)] by (simp add: same_config_def)
    from ring_Write [OF k(1) m k(3,4), of q] obtain n e a' where
      W: "Write b q = Some (n, e, a')"
        "case e of
           Some er \<Rightarrow> panic_cause b er
         | None \<Rightarrow> n = length q \<and> \<not> bad_parameters a' \<and> same_config b a' \<and>
             nwindow a' = windowSamples a' \<and> ring_ok a' \<and>
             (Window a' = ObserveEvery a' \<longrightarrow> squares a' = None)"
      by blast
    show "\<exists>n e a'. Write b q = Some (n, e, a') \<and>
      (case e of Some er \<Rightarrow> panic_cause a er | None \<Rightarrow> K a' qs)"
    proof (cases e)
      case None
      with W k(2) show ?thesis
        by (auto simp: K_def intro: same_config_trans)
    next
      case (Some er)
      with W panic_cause_config [OF k(2)] show ?thesis by simp
    qed
  qed simp
  then show ?thesis
    by (auto simp: panic_cause_def split: option.splits)
qed

theorem squares_index_in_bounds_witness:
  "fresh stereo8_long \<and> valid_config stereo8_long \<and>
   (Window stereo8_long = ObserveEvery stereo8_long \<or> 1 \<le>s windowSamples stereo8_long) \<and>
   no_wrap stereo8_long \<and> windowSamples stereo8_long \<noteq> 0 \<and>
   (\<exists>a'. writes stereo8_long [[3, 3, 255], [4, 5, 6, 7]] = Some (None, a'))"
proof -
  have h: "fresh stereo8_long" "valid_config stereo8_long"
    "Window stereo8_long = ObserveEvery stereo8_long \<or> 1 \<le>s windowSamples stereo8_long"
    by code_simp+
  have n: "no_wrap stereo8_long" "windowSamples stereo8_long \<noteq> 0"
    by code_simp+
  show ?thesis
    using h n squares_index_in_bounds [OF h, of "[[3, 3, 255], [4, 5, 6, 7]]"] by auto
qed

text \<open>The claim as stated, that every \<^verbatim>\<open>Write\<close> is total once validation has passed,
  fails under \<open>widech\<close>: validation passes and the window equals the report interval,
  but \<open>2 ^ 61\<close> channels of 8 bits make a frame size of \<open>2 ^ 64\<close> bits, which wraps
  around to 0.  The loop of line 256 is entered with no byte to read, and \<^verbatim>\<open>p[0]\<close>
  (line 260) is out of range, even for an empty chunk.\<close>

theorem write_total_counterexample:
  "fresh widech \<and> valid_config widech \<and> Window widech = ObserveEvery widech \<and>
   map_option (\<lambda>(n, e, a). (n, e)) (Write widech []) = Some (0, Some PanicIndexBytes)"
proof -
  have "fresh widech" "valid_config widech" "Window widech = ObserveEvery widech"
    "map_option (\<lambda>(n, e, a). (n, e)) (Write widech []) = Some (0, Some PanicIndexBytes)"
    by code_simp+
  then show ?thesis by simp
qed

text \<open>Validation does not look at the window: with a window of zero and a different
  report interval, the first whole frame indexes an empty buffer.\<close>

lemma squares_index_needs_window:
  "valid_config stereo8_nowindow \<and>
   map_option (\<lambda>(n, e, a). (n, e, squares a, next_a a)) (Write stereo8_nowindow [3, 3]) =
     Some (0, Some PanicIndexSquares, Some [], 0)"
  by code_simp



text \<open>Three frames at one sample per report interval: no observer call, and the
  countdown is at \<open>-3\<close>.\<close>

lemma single_sample_interval_run:
  "map_option (\<lambda>(e, a). (e, observed a, nobserve a, sint (countdown a)))
     (writes one_hz [[3, 3], [3]]) = Some (None, [], 0, - 3)"
  by code_simp

end
